theory Spec2Isabelle
  imports Main
begin

section \<open>AIL expressions, statements and structured nodes\<close>

text \<open>
  The intermediate representation is consumed, not owned, by the structurer. The model keeps
  of it what \<^verbatim>\<open>structurer_base.py\<close> reads: an expression is a constant (with its
  \<^verbatim>\<open>value\<close>), a unary operation, a multi-statement expression (with its
  \<^verbatim>\<open>ins_addr\<close>) or anything else; every expression has an \<^verbatim>\<open>idx\<close>.
\<close>

datatype expr =
    Const "int option" int int
  | UnaryOp "int option" string expr
  | MultiStatementExpression "int option" int
  | OtherExpr "int option" nat

fun expr_idx :: "expr \<Rightarrow> int option" where
  "expr_idx (Const i v b) = i"
| "expr_idx (UnaryOp i opr e) = i"
| "expr_idx (MultiStatementExpression i a) = i"
| "expr_idx (OtherExpr i n) = i"

text \<open>
  Python exceptions that the modelled code can raise. Reading \<^verbatim>\<open>.value\<close> of an
  expression that is not a constant is an \<^verbatim>\<open>AttributeError\<close>.
\<close>

datatype error =
    AngrDecompilationError
  | AttributeError
  | TypeError
  | AssertionError
  | IndexError

fun expr_value :: "expr \<Rightarrow> error + int" where
  "expr_value (Const i v b) = Inr v"
| "expr_value e = Inl AttributeError"

fun is_Const :: "expr \<Rightarrow> bool" where
  "is_Const (Const i v b) = True"
| "is_Const e = False"

text \<open>
  Statements: \<^verbatim>\<open>Jump(idx, target, target_idx, **tags)\<close>,
  \<^verbatim>\<open>ConditionalJump(idx, condition, true_target, false_target, true_target_idx,
  false_target_idx, **tags)\<close>, labels, and every other statement. Of the tags the code
  reads \<^verbatim>\<open>ins_addr\<close>; it is the last field of each constructor.
\<close>

datatype stmt =
    Jump "int option" expr "int option" int
  | ConditionalJump "int option" expr "expr option" "expr option" "int option" "int option" int
  | Label string "int option" int
  | OtherStmt "int option" nat int

fun ins_addr :: "stmt \<Rightarrow> int" where
  "ins_addr (Jump i t ti a) = a"
| "ins_addr (ConditionalJump i c tt ft tti fti a) = a"
| "ins_addr (Label n bi a) = a"
| "ins_addr (OtherStmt i n a) = a"

fun is_Jump :: "stmt \<Rightarrow> bool" where
  "is_Jump (Jump i t ti a) = True"
| "is_Jump s = False"

fun is_ConditionalJump :: "stmt \<Rightarrow> bool" where
  "is_ConditionalJump (ConditionalJump i c tt ft tti fti a) = True"
| "is_ConditionalJump s = False"

text \<open>
  The key of a switch case is a single integer or a tuple of integers.
\<close>

datatype case_key = KInt int | KTuple "int list"

text \<open>
  The condition of a loop is an AIL expression or a condition of the condition model.
\<close>

datatype 'c loop_condition = AilCondition expr | AstCondition 'c

datatype loop_sort = While | DoWhile | HeadControlled

text \<open>
  Structured nodes. \<^verbatim>\<open>'c\<close> is the type of the conditions that nodes hold (the
  boolean expressions of the condition model). Field order follows the constructors of the
  source: \<^verbatim>\<open>Block(addr, original_size, statements, idx)\<close>,
  \<^verbatim>\<open>MultiNode(nodes, addr, idx)\<close>, \<^verbatim>\<open>SequenceNode(addr, nodes)\<close>,
  \<^verbatim>\<open>CodeNode(node, reaching_condition)\<close>,
  \<^verbatim>\<open>ConditionNode(addr, reaching_condition, condition, true_node, false_node)\<close>,
  \<^verbatim>\<open>CascadingConditionNode(addr, condition_and_nodes, else_node)\<close>,
  \<^verbatim>\<open>LoopNode(sort, condition, sequence_node, addr)\<close>,
  \<^verbatim>\<open>SwitchCaseNode(switch_expr, cases, default_node, addr)\<close>,
  \<^verbatim>\<open>BreakNode(addr, target)\<close>, \<^verbatim>\<open>ConditionalBreakNode(addr, condition, target)\<close>,
  \<^verbatim>\<open>ContinueNode(addr, target)\<close>. The placeholders of a switch that is
  detected but not yet finalised (\<^verbatim>\<open>IncompleteSwitchCaseNode\<close>) are not part
  of the model: none of the passes below creates or inspects one.
\<close>

datatype 'c node =
    Block int int "stmt list" "int option"
  | MultiNode "'c node list" "int option" "int option"
  | SequenceNode "int option" "'c node list"
  | CodeNode "'c node" "'c option"
  | ConditionNode "int option" "'c option" 'c "'c node option" "'c node option"
  | CascadingConditionNode "int option" "('c \<times> 'c node) list" "'c node option"
  | LoopNode loop_sort "'c loop_condition option" "'c node" "int option"
  | SwitchCaseNode expr "(case_key \<times> 'c node) list" "'c node option" "int option"
  | BreakNode "int option" int
  | ConditionalBreakNode "int option" 'c int
  | ContinueNode "int option" int

text \<open>
  The condition processor and the boolean algebra are collaborators of the structurer. The
  passes take them as a record of functions: \<^verbatim>\<open>claripy_ast_from_ail_condition\<close> on
  an AIL expression (\<open>ast_from_ail\<close>) and on a condition that a node already holds
  (\<open>ast_from_ast\<close>), \<^verbatim>\<open>ConditionProcessor.simplify_condition\<close>, and
  \<^verbatim>\<open>claripy.Not\<close>, \<^verbatim>\<open>claripy.And\<close>, \<^verbatim>\<open>claripy.Or\<close>.
\<close>

record 'c cond_proc =
  ast_from_ail :: "expr \<Rightarrow> 'c"
  ast_from_ast :: "'c \<Rightarrow> 'c"
  simplify_condition :: "'c \<Rightarrow> 'c"
  claripy_Not :: "'c \<Rightarrow> 'c"
  claripy_And :: "'c \<Rightarrow> 'c \<Rightarrow> 'c"
  claripy_Or :: "'c \<Rightarrow> 'c \<Rightarrow> 'c"

section \<open>Break-node synthesis\<close>

text \<open>
  \<^verbatim>\<open>true_target_value\<close> and \<^verbatim>\<open>false_target_value\<close> of
  \<^verbatim>\<open>_loop_create_break_node\<close>: \<^verbatim>\<open>None\<close> when the target is absent,
  otherwise the target's \<^verbatim>\<open>value\<close>.
\<close>

fun target_value :: "expr option \<Rightarrow> error + int option" where
  "target_value None = Inr None"
| "target_value (Some e) = (case expr_value e of Inl err \<Rightarrow> Inl err | Inr v \<Rightarrow> Inr (Some v))"

text \<open>\<^verbatim>\<open>v is not None and v in addrs\<close>\<close>

fun value_in :: "int option \<Rightarrow> int set \<Rightarrow> bool" where
  "value_in None addrs = False"
| "value_in (Some v) addrs = (v \<in> addrs)"

text \<open>\<^verbatim>\<open>v is None or v not in addrs\<close>\<close>

fun value_not_in :: "int option \<Rightarrow> int set \<Rightarrow> bool" where
  "value_not_in None addrs = True"
| "value_not_in (Some v) addrs = (v \<notin> addrs)"

text \<open>
  \<^verbatim>\<open>StructurerBase._loop_create_break_node\<close>. A statement that is neither a jump
  nor a conditional jump gives \<^verbatim>\<open>None\<close>.
\<close>

fun loop_create_break_node :: "'c cond_proc \<Rightarrow> stmt \<Rightarrow> int set \<Rightarrow> error + 'c node option" where
  "loop_create_break_node cp (Jump i tgt ti a) loop_successor_addrs =
     (case expr_value tgt of
        Inl err \<Rightarrow> Inl err
      | Inr v \<Rightarrow> Inr (Some (BreakNode (Some a) v)))"
| "loop_create_break_node cp (ConditionalJump i c tt ft tti fti a) loop_successor_addrs =
     (case target_value tt of
        Inl err \<Rightarrow> Inl err
      | Inr true_target_value \<Rightarrow>
     (case target_value ft of
        Inl err \<Rightarrow> Inl err
      | Inr false_target_value \<Rightarrow>
        if value_in true_target_value loop_successor_addrs
           \<and> value_not_in false_target_value loop_successor_addrs
        then Inr (Some (ConditionalBreakNode (Some a) (ast_from_ail cp c) (the true_target_value)))
        else if value_in false_target_value loop_successor_addrs
           \<and> value_not_in true_target_value loop_successor_addrs
        then Inr (Some (ConditionalBreakNode (Some a)
                          (ast_from_ail cp (UnaryOp (expr_idx c) ''Not'' c))
                          (the false_target_value)))
        else if value_in false_target_value loop_successor_addrs
           \<and> value_in true_target_value loop_successor_addrs
        then Inr (Some (BreakNode (Some a) (the false_target_value)))
        else Inl AngrDecompilationError))"
| "loop_create_break_node cp s loop_successor_addrs = Inr None"

text \<open>
  A jump target that is absent or a constant, and the test that a target is a constant whose
  value lies in an address set.
\<close>

fun const_or_absent :: "expr option \<Rightarrow> bool" where
  "const_or_absent None = True"
| "const_or_absent (Some e) = is_Const e"

fun target_in :: "expr option \<Rightarrow> int set \<Rightarrow> bool" where
  "target_in (Some (Const i v b)) addrs = (v \<in> addrs)"
| "target_in t addrs = False"


section \<open>Node addresses and the sequence walker\<close>

text \<open>
  Modelled from the spec: the node model is not among the sources. Every structured node has
  an optional starting address \<^verbatim>\<open>addr\<close>; a block's address is always present, and a
  \<^verbatim>\<open>CodeNode\<close>, which only wraps a node, has the address of the node it wraps.
\<close>

fun node_addr :: "'c node \<Rightarrow> int option" where
  "node_addr (Block a sz st i) = Some a"
| "node_addr (MultiNode ns a i) = a"
| "node_addr (SequenceNode a ns) = a"
| "node_addr (CodeNode n rc) = node_addr n"
| "node_addr (ConditionNode a rc c t f) = a"
| "node_addr (CascadingConditionNode a cns e) = a"
| "node_addr (LoopNode s c b a) = a"
| "node_addr (SwitchCaseNode e cs d a) = a"
| "node_addr (BreakNode a t) = a"
| "node_addr (ConditionalBreakNode a c t) = a"
| "node_addr (ContinueNode a t) = a"

text \<open>The children of a node, in their natural order.\<close>

fun children :: "'c node \<Rightarrow> 'c node list" where
  "children (MultiNode ns a i) = ns"
| "children (SequenceNode a ns) = ns"
| "children (CodeNode n rc) = [n]"
| "children (ConditionNode a rc c t f) = (case t of None \<Rightarrow> [] | Some n \<Rightarrow> [n]) @ (case f of None \<Rightarrow> [] | Some n \<Rightarrow> [n])"
| "children (CascadingConditionNode a cns e) = map snd cns @ (case e of None \<Rightarrow> [] | Some n \<Rightarrow> [n])"
| "children (LoopNode s c b a) = [b]"
| "children (SwitchCaseNode e cs d a) = map snd cs @ (case d of None \<Rightarrow> [] | Some n \<Rightarrow> [n])"
| "children n = []"

lemma size_snd_le_size_list:
  "x \<in> set xs \<Longrightarrow> size (snd x) \<le> size_list (size_prod (\<lambda>_. 0) size) xs"
  by (induction xs) auto

lemma children_size [termination_simp]: "m \<in> set (children n) \<Longrightarrow> size m < size n"
proof (cases n)
  case (MultiNode ns a i)
  assume "m \<in> set (children n)"
  with MultiNode show ?thesis by (auto simp: less_Suc_eq_le size_list_estimation')
next
  case (SequenceNode a ns)
  assume "m \<in> set (children n)"
  with SequenceNode show ?thesis by (auto simp: less_Suc_eq_le size_list_estimation')
next
  case (ConditionNode a rc c t f)
  assume "m \<in> set (children n)"
  with ConditionNode show ?thesis by (auto split: option.splits)
next
  case (CascadingConditionNode a cns e)
  assume "m \<in> set (children n)"
  with CascadingConditionNode show ?thesis
    by (auto split: option.splits dest!: size_snd_le_size_list)
next
  case (SwitchCaseNode e cs d a)
  assume "m \<in> set (children n)"
  with SwitchCaseNode show ?thesis
    by (auto split: option.splits dest!: size_snd_le_size_list)
qed auto

text \<open>
  Modelled from the spec: \<^verbatim>\<open>SequenceWalker\<close> is not among the sources. Its default
  handler of a node variant hands each child of the node, in natural order, to the handler
  that the walker has for the child's variant (\<open>h\<close> below), and does nothing on a node
  without children. A pass mutates the tree in place; the model returns the tree that
  the pass leaves behind.
\<close>

fun walker_handle_default :: "('c node \<Rightarrow> 'c node) \<Rightarrow> 'c node \<Rightarrow> 'c node" where
  "walker_handle_default h (MultiNode ns a i) = MultiNode (map h ns) a i"
| "walker_handle_default h (SequenceNode a ns) = SequenceNode a (map h ns)"
| "walker_handle_default h (CodeNode n rc) = CodeNode (h n) rc"
| "walker_handle_default h (ConditionNode a rc c t f) =
     ConditionNode a rc c (map_option h t) (map_option h f)"
| "walker_handle_default h (CascadingConditionNode a cns e) =
     CascadingConditionNode a (map (\<lambda>cn. (fst cn, h (snd cn))) cns) (map_option h e)"
| "walker_handle_default h (LoopNode s c b a) = LoopNode s c (h b) a"
| "walker_handle_default h (SwitchCaseNode e cs d a) =
     SwitchCaseNode e (map (\<lambda>kn. (fst kn, h (snd kn))) cs) (map_option h d) a"
| "walker_handle_default h n = n"

lemma walker_handle_default_cong [fundef_cong]:
  assumes "n = n'" and "\<And>m. m \<in> set (children n') \<Longrightarrow> h m = h' m"
  shows "walker_handle_default h n = walker_handle_default h' n'"
  using assms by (cases n') (auto split: option.splits intro!: map_option_cong)

section \<open>Removal of redundant jumps\<close>

text \<open>
  What the handlers of \<^verbatim>\<open>_remove_redundant_jumps\<close> do to the statements of a block
  whose next sibling has address \<open>next_addr\<close>. The flag tells the two handlers apart:
  when the false target is the redundant one, \<^verbatim>\<open>_handle_Sequence\<close> keeps
  \<^verbatim>\<open>true_target_idx\<close> and \<^verbatim>\<open>_handle_MultiNode\<close> passes
  \<^verbatim>\<open>false_target_idx\<close> in its place.
\<close>

fun const_value_is :: "expr option \<Rightarrow> int option \<Rightarrow> bool" where
  "const_value_is (Some (Const i v b)) a = (Some v = a)"
| "const_value_is t a = False"

fun fix_jump :: "bool \<Rightarrow> int option \<Rightarrow> stmt \<Rightarrow> stmt option" where
  "fix_jump in_multinode next_addr (Jump i tgt ti a) =
     (if const_value_is (Some tgt) next_addr then None else Some (Jump i tgt ti a))"
| "fix_jump in_multinode next_addr (ConditionalJump i c tt ft tti fti a) =
     (if const_value_is tt next_addr
      then Some (ConditionalJump i (UnaryOp None ''Not'' c) ft None fti None a)
      else if const_value_is ft next_addr
      then Some (ConditionalJump i c tt None (if in_multinode then fti else tti) None a)
      else Some (ConditionalJump i c tt ft tti fti a))"
| "fix_jump in_multinode next_addr s = Some s"

definition fix_statements :: "bool \<Rightarrow> int option \<Rightarrow> stmt list \<Rightarrow> stmt list" where
  "fix_statements in_multinode next_addr stmts =
     (if stmts = [] then []
      else case fix_jump in_multinode next_addr (last stmts) of
             None \<Rightarrow> butlast stmts
           | Some s \<Rightarrow> butlast stmts @ [s])"

text \<open>
  The node at index \<open>i\<close> of the loop: a block is fixed itself; of a
  \<^verbatim>\<open>MultiNode\<close> whose last node is a block, that last block is fixed.
\<close>

fun fix_block :: "bool \<Rightarrow> int option \<Rightarrow> 'c node \<Rightarrow> 'c node" where
  "fix_block in_multinode next_addr (Block a sz stmts i) =
     Block a sz (fix_statements in_multinode next_addr stmts) i"
| "fix_block in_multinode next_addr n = n"

fun fix_this_node :: "bool \<Rightarrow> int option \<Rightarrow> 'c node \<Rightarrow> 'c node" where
  "fix_this_node in_multinode next_addr (Block a sz stmts i) =
     fix_block in_multinode next_addr (Block a sz stmts i)"
| "fix_this_node in_multinode next_addr (MultiNode ns a i) =
     (if ns = [] then MultiNode ns a i
      else MultiNode (butlast ns @ [fix_block in_multinode next_addr (last ns)]) a i)"
| "fix_this_node in_multinode next_addr n = n"

text \<open>\<^verbatim>\<open>for i in range(len(node.nodes) - 1)\<close>: every node but the last, against the
  address of its next sibling.\<close>

fun fix_nodes :: "bool \<Rightarrow> 'c node list \<Rightarrow> 'c node list" where
  "fix_nodes in_multinode (n # m # ns) =
     fix_this_node in_multinode (node_addr m) n # fix_nodes in_multinode (m # ns)"
| "fix_nodes in_multinode ns = ns"

lemma size_fix_block: "size (fix_block k x n) = size n"
  by (cases n) auto

lemma size_fix_this_node: "size (fix_this_node k x n) = size n"
proof (cases n)
  case (MultiNode ns a i)
  show ?thesis
  proof (cases "ns = []")
    case True
    with MultiNode show ?thesis by simp
  next
    case False
    then obtain bs b where "ns = bs @ [b]" by (metis append_butlast_last_id)
    with MultiNode show ?thesis by (simp add: size_fix_block)
  qed
qed auto

lemma size_list_fix_nodes: "size_list size (fix_nodes k ns) = size_list size ns"
  by (induction k ns rule: fix_nodes.induct) (auto simp: size_fix_this_node)

lemma fix_nodes_size [termination_simp]:
  "m \<in> set (fix_nodes k ns) \<Longrightarrow> size m < Suc (size_list size ns)"
  using size_list_estimation' [of m "fix_nodes k ns" "size m" size]
  by (simp add: size_list_fix_nodes less_Suc_eq_le)

text \<open>
  \<^verbatim>\<open>StructurerBase._remove_redundant_jumps\<close>: the walker with the two handlers; each
  handler runs its loop and then the walker's default handler of its variant.
\<close>

fun remove_redundant_jumps :: "'c node \<Rightarrow> 'c node" where
  "remove_redundant_jumps (SequenceNode a ns) =
     SequenceNode a (map remove_redundant_jumps (fix_nodes False ns))"
| "remove_redundant_jumps (MultiNode ns a i) =
     MultiNode (map remove_redundant_jumps (fix_nodes True ns)) a i"
| "remove_redundant_jumps n = walker_handle_default remove_redundant_jumps n"

section \<open>Passes that report whether they merged anything\<close>

text \<open>
  \<^verbatim>\<open>_merge_conditional_breaks\<close> and \<^verbatim>\<open>_merge_nesting_conditionals\<close> return
  the pair of the flag \<^verbatim>\<open>_Holder.merged\<close> and the sequence. The handlers set the
  flag; the model makes each handler return the pair of its flag and its node, and the
  walker's default handler passes on whether any child set the flag.
\<close>

fun opt_flag :: "('a \<Rightarrow> bool \<times> 'b) \<Rightarrow> 'a option \<Rightarrow> bool" where
  "opt_flag h None = False"
| "opt_flag h (Some n) = fst (h n)"

fun walker_handle_default_flag ::
  "('c node \<Rightarrow> bool \<times> 'c node) \<Rightarrow> 'c node \<Rightarrow> bool \<times> 'c node" where
  "walker_handle_default_flag h (MultiNode ns a i) =
     (list_ex (\<lambda>n. fst (h n)) ns, MultiNode (map (\<lambda>n. snd (h n)) ns) a i)"
| "walker_handle_default_flag h (SequenceNode a ns) =
     (list_ex (\<lambda>n. fst (h n)) ns, SequenceNode a (map (\<lambda>n. snd (h n)) ns))"
| "walker_handle_default_flag h (CodeNode n rc) = (fst (h n), CodeNode (snd (h n)) rc)"
| "walker_handle_default_flag h (ConditionNode a rc c t f) =
     (opt_flag h t \<or> opt_flag h f,
      ConditionNode a rc c (map_option (\<lambda>n. snd (h n)) t) (map_option (\<lambda>n. snd (h n)) f))"
| "walker_handle_default_flag h (CascadingConditionNode a cns e) =
     (list_ex (\<lambda>cn. fst (h (snd cn))) cns \<or> opt_flag h e,
      CascadingConditionNode a (map (\<lambda>cn. (fst cn, snd (h (snd cn)))) cns)
        (map_option (\<lambda>n. snd (h n)) e))"
| "walker_handle_default_flag h (LoopNode s c b a) = (fst (h b), LoopNode s c (snd (h b)) a)"
| "walker_handle_default_flag h (SwitchCaseNode e cs d a) =
     (list_ex (\<lambda>kn. fst (h (snd kn))) cs \<or> opt_flag h d,
      SwitchCaseNode e (map (\<lambda>kn. (fst kn, snd (h (snd kn)))) cs)
        (map_option (\<lambda>n. snd (h n)) d) a)"
| "walker_handle_default_flag h n = (False, n)"

lemma opt_flag_cong:
  "(\<And>m. t = Some m \<Longrightarrow> h m = h' m) \<Longrightarrow> opt_flag h t = opt_flag h' t"
  by (cases t) auto

lemma walker_handle_default_flag_cong [fundef_cong]:
  assumes "n = n'" and "\<And>m. m \<in> set (children n') \<Longrightarrow> h m = h' m"
  shows "walker_handle_default_flag h n = walker_handle_default_flag h' n'"
proof (cases n')
  case (ConditionNode a rc c t f)
  with assms(2) have "opt_flag h t = opt_flag h' t" "opt_flag h f = opt_flag h' f"
    "map_option (\<lambda>n. snd (h n)) t = map_option (\<lambda>n. snd (h' n)) t"
    "map_option (\<lambda>n. snd (h n)) f = map_option (\<lambda>n. snd (h' n)) f"
    by (auto intro!: opt_flag_cong map_option_cong)
  with ConditionNode assms(1) show ?thesis by simp
next
  case (CascadingConditionNode a cns e)
  with assms(2) have "opt_flag h e = opt_flag h' e"
    "map_option (\<lambda>n. snd (h n)) e = map_option (\<lambda>n. snd (h' n)) e"
    "\<And>cn. cn \<in> set cns \<Longrightarrow> h (snd cn) = h' (snd cn)"
    by (auto intro!: opt_flag_cong map_option_cong)
  with CascadingConditionNode assms(1) show ?thesis by (simp add: list_ex_iff)
next
  case (SwitchCaseNode x cs d a)
  with assms(2) have "opt_flag h d = opt_flag h' d"
    "map_option (\<lambda>n. snd (h n)) d = map_option (\<lambda>n. snd (h' n)) d"
    "\<And>kn. kn \<in> set cs \<Longrightarrow> h (snd kn) = h' (snd kn)"
    by (auto intro!: opt_flag_cong map_option_cong)
  with SwitchCaseNode assms(1) show ?thesis by (simp add: list_ex_iff)
qed (use assms in \<open>auto simp: list_ex_iff\<close>)

text \<open>\<^verbatim>\<open>old_node.node if type(old_node) is CodeNode else old_node\<close>, and the node
  \<open>old_node\<close> once the node inside it has been handled in place.\<close>

fun code_unwrap :: "'c node \<Rightarrow> 'c node" where
  "code_unwrap (CodeNode n rc) = n"
| "code_unwrap n = n"

fun code_rewrap :: "'c node \<Rightarrow> 'c node \<Rightarrow> 'c node" where
  "code_rewrap (CodeNode n rc) n' = CodeNode n' rc"
| "code_rewrap old n' = n'"

lemma size_code_unwrap: "size (code_unwrap n) \<le> size n"
  by (cases n) auto

lemma code_unwrap_size [termination_simp]:
  "n \<in> set ns \<Longrightarrow> size (code_unwrap n) < Suc (size_list size ns)"
  using size_list_estimation' [of n ns "size (code_unwrap n)" size] size_code_unwrap [of n]
  by (simp add: less_Suc_eq_le)

fun is_ConditionalBreakNode :: "'c node \<Rightarrow> bool" where
  "is_ConditionalBreakNode (ConditionalBreakNode a c t) = True"
| "is_ConditionalBreakNode n = False"

section \<open>Merging of consecutive conditional breaks\<close>

text \<open>
  The merged node of \<^verbatim>\<open>_merge_conditional_breaks\<close>:
  \<^verbatim>\<open>ConditionalBreakNode(node.addr, simplify_condition(claripy.Or(node.condition,
  prev_node.condition)), node.target)\<close>.
\<close>

fun merged_break :: "'c cond_proc \<Rightarrow> 'c node \<Rightarrow> 'c node \<Rightarrow> 'c node" where
  "merged_break cp (ConditionalBreakNode a c t) (ConditionalBreakNode pa pc pt) =
     ConditionalBreakNode a (simplify_condition cp (claripy_Or cp c pc)) t"
| "merged_break cp n prev = n"

text \<open>
  The body of the loop of \<^verbatim>\<open>_handle_SequenceNode\<close> for the node
  \<open>old_node\<close>, with the list \<^verbatim>\<open>new_nodes\<close> built so far; \<open>h\<close> is
  \<^verbatim>\<open>walker._handle\<close>. It returns whether it merged and the new list.
\<close>

definition merge_breaks_step ::
  "('c node \<Rightarrow> bool \<times> 'c node) \<Rightarrow> 'c cond_proc \<Rightarrow> 'c node \<Rightarrow> 'c node list
   \<Rightarrow> bool \<times> 'c node list" where
  "merge_breaks_step h cp old_node new_nodes =
     (if is_ConditionalBreakNode (code_unwrap old_node) \<and> new_nodes \<noteq> []
      then
        (if is_ConditionalBreakNode (code_unwrap (last new_nodes))
         then (True,
               butlast new_nodes @
               [merged_break cp (code_unwrap old_node) (code_unwrap (last new_nodes))])
         else (False, new_nodes @ [old_node]))
      else
        (case h (code_unwrap old_node) of
           (m, handled) \<Rightarrow> (m, new_nodes @ [code_rewrap old_node handled])))"

text \<open>The loop over the nodes that are left.\<close>

fun merge_breaks_loop ::
  "('c node \<Rightarrow> bool \<times> 'c node) \<Rightarrow> 'c cond_proc \<Rightarrow> 'c node list \<Rightarrow> 'c node list
   \<Rightarrow> bool \<times> 'c node list" where
  "merge_breaks_loop h cp [] new_nodes = (False, new_nodes)"
| "merge_breaks_loop h cp (old_node # rest) new_nodes =
     (case merge_breaks_step h cp old_node new_nodes of
        (m, new_nodes') \<Rightarrow>
          (case merge_breaks_loop h cp rest new_nodes' of
             (m', nodes) \<Rightarrow> (m \<or> m', nodes)))"

lemma merge_breaks_loop_cong [fundef_cong]:
  assumes "ns = ns'" and "\<And>n. n \<in> set ns' \<Longrightarrow> h (code_unwrap n) = h' (code_unwrap n)"
  shows "merge_breaks_loop h cp ns acc = merge_breaks_loop h' cp ns' acc"
  using assms(2) unfolding assms(1)
  by (induction ns' arbitrary: acc) (auto simp: merge_breaks_step_def split: prod.splits)

fun merge_conditional_breaks_handle :: "'c cond_proc \<Rightarrow> 'c node \<Rightarrow> bool \<times> 'c node" where
  "merge_conditional_breaks_handle cp (SequenceNode a ns) =
     (case merge_breaks_loop (merge_conditional_breaks_handle cp) cp ns [] of
        (m, new_nodes) \<Rightarrow> (m, SequenceNode a new_nodes))"
| "merge_conditional_breaks_handle cp n =
     walker_handle_default_flag (merge_conditional_breaks_handle cp) n"

text \<open>\<^verbatim>\<open>StructurerBase._merge_conditional_breaks\<close>: the flag starts at
  \<^verbatim>\<open>False\<close>, the walker walks the sequence, the flag and the sequence are returned.\<close>

definition merge_conditional_breaks :: "'c cond_proc \<Rightarrow> 'c node \<Rightarrow> bool \<times> 'c node" where
  "merge_conditional_breaks cp seq = merge_conditional_breaks_handle cp seq"

section \<open>Merging of nested conditionals\<close>

text \<open>
  \<^verbatim>\<open>_condnode_truenode_only\<close>: the address, condition and true node of a condition
  node (possibly inside a \<^verbatim>\<open>CodeNode\<close>) that has a true node and no false node.
\<close>

definition condnode_truenode_only :: "'c node \<Rightarrow> (int option \<times> 'c \<times> 'c node) option" where
  "condnode_truenode_only n =
     (case code_unwrap n of
        ConditionNode a rc c (Some t) None \<Rightarrow> Some (a, c, t)
      | _ \<Rightarrow> None)"

text \<open>
  \<^verbatim>\<open>_condbreaknode\<close>: the address, condition and target of a conditional break,
  possibly inside a \<^verbatim>\<open>CodeNode\<close> and inside sequences of a single node.
\<close>

function condbreaknode :: "'c node \<Rightarrow> (int option \<times> 'c \<times> int) option" where
  "condbreaknode n =
     (case code_unwrap n of
        SequenceNode a ns \<Rightarrow> (case ns of [m] \<Rightarrow> condbreaknode m | _ \<Rightarrow> None)
      | ConditionalBreakNode a c t \<Rightarrow> Some (a, c, t)
      | _ \<Rightarrow> None)"
  by pat_completeness auto
termination
proof (relation "measure size")
  fix n :: "'c node" and a ns m ms
  assume "code_unwrap n = SequenceNode a ns" and "ns = m # ms" and "ms = []"
  then have "size m < size (code_unwrap n)" by simp
  then show "(m, n) \<in> measure size" using size_code_unwrap [of n] by simp
qed simp

declare condbreaknode.simps [simp del]

text \<open>
  The body of the loop of \<^verbatim>\<open>_handle_SequenceNode\<close> for one node of the sequence;
  \<open>h\<close> is \<^verbatim>\<open>walker._handle\<close>.
\<close>

definition merge_nesting_step ::
  "('c node \<Rightarrow> bool \<times> 'c node) \<Rightarrow> 'c cond_proc \<Rightarrow> 'c node \<Rightarrow> bool \<times> 'c node" where
  "merge_nesting_step h cp node =
     (case condnode_truenode_only node of
        Some (a, c, true_node) \<Rightarrow>
          (case condnode_truenode_only true_node of
             Some (ia, ic, inner_true_node) \<Rightarrow>
               (True, ConditionNode a None
                        (simplify_condition cp
                           (claripy_And cp (ast_from_ast cp c) (ast_from_ast cp ic)))
                        (Some inner_true_node) None)
           | None \<Rightarrow>
               (case condbreaknode true_node of
                  Some (ba, bc, bt) \<Rightarrow>
                    (True, ConditionalBreakNode ba
                             (simplify_condition cp
                                (claripy_And cp (ast_from_ast cp c) (ast_from_ast cp bc)))
                             bt)
                | None \<Rightarrow> h node))
      | None \<Rightarrow> h node)"

lemma merge_nesting_step_cong [fundef_cong]:
  assumes "node = node'" and "h node' = h' node'"
  shows "merge_nesting_step h cp node = merge_nesting_step h' cp node'"
  using assms by (simp add: merge_nesting_step_def split: option.splits prod.splits)

fun merge_nesting_conditionals_handle :: "'c cond_proc \<Rightarrow> 'c node \<Rightarrow> bool \<times> 'c node" where
  "merge_nesting_conditionals_handle cp (SequenceNode a ns) =
     (list_ex (\<lambda>n. fst (merge_nesting_step (merge_nesting_conditionals_handle cp) cp n)) ns,
      SequenceNode a
        (map (\<lambda>n. snd (merge_nesting_step (merge_nesting_conditionals_handle cp) cp n)) ns))"
| "merge_nesting_conditionals_handle cp n =
     walker_handle_default_flag (merge_nesting_conditionals_handle cp) n"

text \<open>\<^verbatim>\<open>StructurerBase._merge_nesting_conditionals\<close>.\<close>

definition merge_nesting_conditionals :: "'c cond_proc \<Rightarrow> 'c node \<Rightarrow> bool \<times> 'c node" where
  "merge_nesting_conditionals cp seq = merge_nesting_conditionals_handle cp seq"

section \<open>The end address of a switch\<close>

text \<open>
  Modelled from the spec: \<^verbatim>\<open>extract_jump_targets\<close> is not among the sources. It is
  the query for the target addresses of a control-transfer statement: none, one or two, the
  constant targets of the statement in the order true target, false target.
\<close>

fun const_targets :: "expr option \<Rightarrow> int list" where
  "const_targets (Some (Const i v b)) = [v]"
| "const_targets t = []"

fun extract_jump_targets :: "stmt \<Rightarrow> int list" where
  "extract_jump_targets (Jump i tgt ti a) = const_targets (Some tgt)"
| "extract_jump_targets (ConditionalJump i c tt ft tti fti a) = const_targets tt @ const_targets ft"
| "extract_jump_targets s = []"

text \<open>
  A walker whose only handler is the one for blocks reaches every block of the tree, through
  the default handlers, in natural order. These are the statement lists of the blocks that it
  hands to the handler.
\<close>

fun walked_blocks :: "'c node \<Rightarrow> stmt list list" where
  "walked_blocks (Block a sz stmts i) = [stmts]"
| "walked_blocks n = concat (map walked_blocks (children n))"

text \<open>
  \<^verbatim>\<open>_find_gotos\<close> on one block: the targets that it counts, in order. A target that
  is a key of \<^verbatim>\<open>cases\<close> or the address of the default node is skipped.
\<close>

definition find_gotos :: "int set \<Rightarrow> int option option \<Rightarrow> stmt list \<Rightarrow> int list" where
  "find_gotos case_keys default_addr stmts =
     (if stmts \<noteq> [] \<and> is_Jump (last stmts)
      then filter (\<lambda>t. \<not> (t \<in> case_keys \<or> (default_addr \<noteq> None \<and> Some t = the default_addr)))
             (extract_jump_targets (last stmts))
      else [])"

text \<open>
  All the targets counted, in the order of the walks: the case nodes in the order of the
  dictionary, then the default node. \<open>cases\<close> is the dictionary as the list of its items.
\<close>

definition goto_targets :: "(int \<times> 'c node) list \<Rightarrow> 'c node option \<Rightarrow> int list" where
  "goto_targets cases default_node =
     concat (map (find_gotos (fst ` set cases) (map_option node_addr default_node))
               (concat (map walked_blocks
                          (map snd cases @ (case default_node of None \<Rightarrow> [] | Some d \<Rightarrow> [d])))))"

text \<open>
  \<^verbatim>\<open>goto_addrs[t] += 1\<close> on the \<^verbatim>\<open>defaultdict(int)\<close>, kept as the list of
  its items in insertion order.
\<close>

fun count_goto :: "int \<Rightarrow> (int \<times> nat) list \<Rightarrow> (int \<times> nat) list" where
  "count_goto t [] = [(t, 1)]"
| "count_goto t ((a, n) # d) = (if a = t then (a, Suc n) # d else (a, n) # count_goto t d)"

definition goto_addrs_of :: "int list \<Rightarrow> (int \<times> nat) list" where
  "goto_addrs_of ts = foldl (\<lambda>d t. count_goto t d) [] ts"

text \<open>
  \<^verbatim>\<open>StructurerBase._switch_find_switch_end_addr\<close>.
  \<^verbatim>\<open>sorted(..., key=lambda x: x[1], reverse=True)\<close> is a stable sort by descending
  count; \<^verbatim>\<open>[0]\<close> on an empty list would be an \<^verbatim>\<open>IndexError\<close>.
\<close>

definition switch_find_switch_end_addr ::
  "(int \<times> 'c node) list \<Rightarrow> 'c node option \<Rightarrow> int set \<Rightarrow> error + int option" where
  "switch_find_switch_end_addr cases default_node region_node_addrs =
     (let goto_addrs = goto_addrs_of (goto_targets cases default_node) in
      if goto_addrs = [] then Inr None
      else
        (let goto_addrs' =
               (if length goto_addrs > 1 \<and> list_ex (\<lambda>x. fst x \<in> region_node_addrs) goto_addrs
                then filter (\<lambda>x. fst x \<in> region_node_addrs) goto_addrs
                else goto_addrs)
         in case sort_key (\<lambda>x. - int (snd x)) goto_addrs' of
              [] \<Rightarrow> Inl IndexError
            | x # xs \<Rightarrow> Inr (Some (fst x))))"

text \<open>
  The candidates among which, in the words of the spec, the end address is chosen: the goto
  targets that are addresses of region nodes when there is more than one target and at least
  one of them is such an address, all the goto targets otherwise.
\<close>

definition goto_pool :: "int list \<Rightarrow> int set \<Rightarrow> int set" where
  "goto_pool ts region_node_addrs =
     (if card (set ts) > 1 \<and> set ts \<inter> region_node_addrs \<noteq> {}
      then set ts \<inter> region_node_addrs else set ts)"

section \<open>Blocks with one control transfer\<close>

text \<open>
  The blocks on which the removal of redundant jumps reaches a fixed point in one run: a
  jump or conditional jump occurs only as the last statement of a block, and a conditional
  jump with two constant targets has two different targets.
\<close>

fun distinct_targets :: "stmt \<Rightarrow> bool" where
  "distinct_targets (ConditionalJump i c (Some (Const it t bt)) (Some (Const jf f bf)) tti fti a) =
     (t \<noteq> f)"
| "distinct_targets s = True"

definition single_exit_block :: "stmt list \<Rightarrow> bool" where
  "single_exit_block stmts =
     (list_all (\<lambda>s. \<not> is_Jump s \<and> \<not> is_ConditionalJump s) (butlast stmts)
      \<and> (stmts = [] \<or> distinct_targets (last stmts)))"

definition single_exit_blocks :: "'c node \<Rightarrow> bool" where
  "single_exit_blocks n = list_all single_exit_block (walked_blocks n)"

fun is_Block :: "'c node \<Rightarrow> bool" where
  "is_Block (Block a sz stmts i) = True"
| "is_Block n = False"

section \<open>Insertion of nodes by a handler\<close>

text \<open>
  Modelled from the spec: \<^verbatim>\<open>insert_node\<close> is not among the sources. A handler that
  is called on a child inserts new nodes after it. When the parent is a container (a sequence
  or a \<^verbatim>\<open>MultiNode\<close>), the new nodes are spliced into the parent's list right
  after the child, and the walker does not visit them. When the parent is not a container,
  \<^verbatim>\<open>insert_node\<close> puts in the child's slot a new sequence, at the address of the
  child, that holds the child followed by the new nodes (``the parent of the current node is
  not a container. insert_node() handles it for us'', ``parent.cases[index] is a SequenceNode
  now''). In the model a handler returns the list of the child and the nodes inserted after
  it; \<open>in_slot\<close> is what a parent that is not a container holds afterwards.
\<close>

fun in_slot :: "'c node list \<Rightarrow> 'c node" where
  "in_slot [] = SequenceNode None []"
| "in_slot [n] = n"
| "in_slot (n # inserted) = SequenceNode (node_addr n) (n # inserted)"

section \<open>Rewriting of jumps to continues\<close>

text \<open>
  \<^verbatim>\<open>continue_node_addr\<close>: the address of the loop body, or, for a do-while loop
  whose condition is a multi-statement expression, the \<^verbatim>\<open>ins_addr\<close> of the
  condition.
\<close>

fun continue_node_addr :: "'c node \<Rightarrow> 'c node option \<Rightarrow> int option" where
  "continue_node_addr loop_seq
     (Some (LoopNode DoWhile (Some (AilCondition (MultiStatementExpression i a))) body la)) = Some a"
| "continue_node_addr loop_seq loop_node = node_addr loop_seq"

text \<open>
  \<^verbatim>\<open>_rewrite_jump_to_continue\<close> on the last statement of a block: the nodes that
  it inserts after the block when it removes the statement, \<^verbatim>\<open>None\<close> when it
  leaves the block alone.
\<close>

definition continue_after_condition ::
  "'c cond_proc \<Rightarrow> int \<Rightarrow> int option \<Rightarrow> int \<Rightarrow> 'c \<Rightarrow> expr option \<Rightarrow> 'c node list" where
  "continue_after_condition cp ca i a cond other_target =
     (case other_target of
        Some target \<Rightarrow>
          [ConditionNode (Some a) None (claripy_Not cp cond)
             (Some (Block a 0 [Jump i target None a] None)) None,
           ContinueNode (Some a) ca]
      | None \<Rightarrow>
          [ConditionNode (Some a) None cond (Some (ContinueNode (Some a) ca)) None])"

fun continue_nodes :: "'c cond_proc \<Rightarrow> int option \<Rightarrow> stmt \<Rightarrow> 'c node list option" where
  "continue_nodes cp None s = None"
| "continue_nodes cp (Some ca) (Jump i tgt ti a) =
     (if list_ex (\<lambda>t. t = ca) (extract_jump_targets (Jump i tgt ti a))
      then Some [ContinueNode (Some a) ca] else None)"
| "continue_nodes cp (Some ca) (ConditionalJump i c tt ft tti fti a) =
     (if const_value_is tt (Some ca)
      then Some (continue_after_condition cp ca i a (ast_from_ail cp c) ft)
      else if const_value_is ft (Some ca)
      then Some (continue_after_condition cp ca i a (claripy_Not cp (ast_from_ail cp c)) tt)
      else None)"
| "continue_nodes cp (Some ca) s = None"

definition rewrite_jump_to_continue ::
  "'c cond_proc \<Rightarrow> int option \<Rightarrow> int \<Rightarrow> int \<Rightarrow> stmt list \<Rightarrow> int option \<Rightarrow> 'c node list" where
  "rewrite_jump_to_continue cp ca a sz stmts i =
     (if stmts = [] then [Block a sz stmts i]
      else case continue_nodes cp ca (last stmts) of
             None \<Rightarrow> [Block a sz stmts i]
           | Some inserted \<Rightarrow> Block a sz (butlast stmts) i # inserted)"

text \<open>
  The walk of \<^verbatim>\<open>_rewrite_jumps_to_continues\<close>: the handler of blocks, the dummy
  handler of loops, and the walker's default handlers. The result is the list of nodes that
  stand in the place of the node in a container.
\<close>

fun rewrite_jumps_walk :: "'c cond_proc \<Rightarrow> int option \<Rightarrow> 'c node \<Rightarrow> 'c node list" where
  "rewrite_jumps_walk cp ca (Block a sz stmts i) = rewrite_jump_to_continue cp ca a sz stmts i"
| "rewrite_jumps_walk cp ca (SequenceNode a ns) =
     [SequenceNode a (concat (map (rewrite_jumps_walk cp ca) ns))]"
| "rewrite_jumps_walk cp ca (MultiNode ns a i) =
     [MultiNode (concat (map (rewrite_jumps_walk cp ca) ns)) a i]"
| "rewrite_jumps_walk cp ca (LoopNode s c body a) = [LoopNode s c body a]"
| "rewrite_jumps_walk cp ca n =
     [walker_handle_default (\<lambda>m. in_slot (rewrite_jumps_walk cp ca m)) n]"

section \<open>Removal of the continue at the end of a loop body\<close>

fun is_ContinueNode :: "'c node \<Rightarrow> bool" where
  "is_ContinueNode (ContinueNode a t) = True"
| "is_ContinueNode n = False"

lemma last_size [termination_simp]: "ns \<noteq> [] \<Longrightarrow> size (last ns) < Suc (size_list size ns)"
  using size_list_estimation' [of "last ns" ns "size (last ns)" size]
  by (simp add: less_Suc_eq_le)

text \<open>
  \<^verbatim>\<open>StructurerBase._remove_continue_node_at_loop_body_ends\<close>: the handlers of
  sequences and of \<^verbatim>\<open>MultiNode\<close>s, the dummy handlers of loops and switches, and
  the walker's default handlers.
\<close>

fun remove_continue_node_at_loop_body_ends :: "'c node \<Rightarrow> 'c node" where
  "remove_continue_node_at_loop_body_ends (SequenceNode a ns) =
     (if ns = [] then SequenceNode a ns
      else if is_ContinueNode (last ns) then SequenceNode a (butlast ns)
      else SequenceNode a (butlast ns @ [remove_continue_node_at_loop_body_ends (last ns)]))"
| "remove_continue_node_at_loop_body_ends (MultiNode ns a i) =
     (if ns = [] then MultiNode ns a i
      else if is_ContinueNode (last ns) then MultiNode (butlast ns) a i
      else MultiNode (butlast ns @ [remove_continue_node_at_loop_body_ends (last ns)]) a i)"
| "remove_continue_node_at_loop_body_ends (LoopNode s c body a) = LoopNode s c body a"
| "remove_continue_node_at_loop_body_ends (SwitchCaseNode e cs d a) = SwitchCaseNode e cs d a"
| "remove_continue_node_at_loop_body_ends n =
     walker_handle_default remove_continue_node_at_loop_body_ends n"

text \<open>
  \<^verbatim>\<open>StructurerBase._rewrite_jumps_to_continues\<close>. The walker calls the handler of
  the root without \<^verbatim>\<open>parent\<close> and \<^verbatim>\<open>index\<close>, which the handler of blocks
  requires: a root that is a block is a \<^verbatim>\<open>TypeError\<close>.
\<close>

fun rewrite_jumps_to_continues ::
  "'c cond_proc \<Rightarrow> 'c node \<Rightarrow> 'c node option \<Rightarrow> error + 'c node" where
  "rewrite_jumps_to_continues cp (Block a sz stmts i) loop_node = Inl TypeError"
| "rewrite_jumps_to_continues cp loop_seq loop_node =
     Inr (remove_continue_node_at_loop_body_ends
            (in_slot (rewrite_jumps_walk cp (continue_node_addr loop_seq loop_node) loop_seq)))"

section \<open>Rewriting of conditional jumps to breaks\<close>

text \<open>The first error of a list of results, or all the values.\<close>

fun collect :: "(error + 'a) list \<Rightarrow> error + 'a list" where
  "collect [] = Inr []"
| "collect (Inl e # rs) = Inl e"
| "collect (Inr x # rs) = (case collect rs of Inl e \<Rightarrow> Inl e | Inr xs \<Rightarrow> Inr (x # xs))"

fun collect_option :: "(error + 'a) option \<Rightarrow> error + 'a option" where
  "collect_option None = Inr None"
| "collect_option (Some (Inl e)) = Inl e"
| "collect_option (Some (Inr x)) = Inr (Some x)"

fun with_key :: "'k \<Rightarrow> error + 'a \<Rightarrow> error + ('k \<times> 'a)" where
  "with_key k (Inl e) = Inl e"
| "with_key k (Inr x) = Inr (k, x)"

text \<open>
  Modelled from the spec: the default handlers of \<^verbatim>\<open>SequenceWalker\<close>, as above,
  for a handler that can raise: the first exception in the order of the walk ends the pass.
\<close>

fun walker_handle_default_raising ::
  "('c node \<Rightarrow> error + 'c node) \<Rightarrow> 'c node \<Rightarrow> error + 'c node" where
  "walker_handle_default_raising h (MultiNode ns a i) =
     (case collect (map h ns) of Inl e \<Rightarrow> Inl e | Inr ms \<Rightarrow> Inr (MultiNode ms a i))"
| "walker_handle_default_raising h (SequenceNode a ns) =
     (case collect (map h ns) of Inl e \<Rightarrow> Inl e | Inr ms \<Rightarrow> Inr (SequenceNode a ms))"
| "walker_handle_default_raising h (CodeNode n rc) =
     (case h n of Inl e \<Rightarrow> Inl e | Inr m \<Rightarrow> Inr (CodeNode m rc))"
| "walker_handle_default_raising h (ConditionNode a rc c t f) =
     (case collect_option (map_option h t) of
        Inl e \<Rightarrow> Inl e
      | Inr t' \<Rightarrow>
          (case collect_option (map_option h f) of
             Inl e \<Rightarrow> Inl e
           | Inr f' \<Rightarrow> Inr (ConditionNode a rc c t' f')))"
| "walker_handle_default_raising h (CascadingConditionNode a cns e) =
     (case collect (map (\<lambda>cn. with_key (fst cn) (h (snd cn))) cns) of
        Inl err \<Rightarrow> Inl err
      | Inr cns' \<Rightarrow>
          (case collect_option (map_option h e) of
             Inl err \<Rightarrow> Inl err
           | Inr e' \<Rightarrow> Inr (CascadingConditionNode a cns' e')))"
| "walker_handle_default_raising h (LoopNode s c b a) =
     (case h b of Inl e \<Rightarrow> Inl e | Inr b' \<Rightarrow> Inr (LoopNode s c b' a))"
| "walker_handle_default_raising h (SwitchCaseNode e cs d a) =
     (case collect (map (\<lambda>kn. with_key (fst kn) (h (snd kn))) cs) of
        Inl err \<Rightarrow> Inl err
      | Inr cs' \<Rightarrow>
          (case collect_option (map_option h d) of
             Inl err \<Rightarrow> Inl err
           | Inr d' \<Rightarrow> Inr (SwitchCaseNode e cs' d' a)))"
| "walker_handle_default_raising h n = Inr n"

lemma walker_handle_default_raising_cong [fundef_cong]:
  fixes n n' :: "'c node"
  assumes "n = n'" and "\<And>m. m \<in> set (children n') \<Longrightarrow> h m = h' m"
  shows "walker_handle_default_raising h n = walker_handle_default_raising h' n'"
proof -
  have l: "map h ms = map h' ms" if "set ms \<subseteq> set (children n')" for ms
    using that assms(2) by (intro map_cong) auto
  have p: "map (\<lambda>kn. with_key (fst kn) (h (snd kn))) ps
           = map (\<lambda>kn. with_key (fst kn) (h' (snd kn))) ps"
    if "snd ` set ps \<subseteq> set (children n')" for ps :: "('k \<times> 'c node) list"
    using that assms(2) by (intro map_cong) auto
  have ob: "map_option h t = map_option h' t" if "set_option t \<subseteq> set (children n')" for t
    using that assms(2) by (intro map_option_cong) auto
  show ?thesis
  proof (cases n')
    case (ConditionNode a rc c t f)
    then have e: "map_option h t = map_option h' t" "map_option h f = map_option h' f"
      using ob [of t] ob [of f] by auto
    show ?thesis
      unfolding assms(1) ConditionNode walker_handle_default_raising.simps e by (rule refl)
  next
    case (CascadingConditionNode a cns e)
    then have e: "map (\<lambda>kn. with_key (fst kn) (h (snd kn))) cns
               = map (\<lambda>kn. with_key (fst kn) (h' (snd kn))) cns"
      "map_option h e = map_option h' e"
      using p [of cns] ob [of e] by auto
    show ?thesis
      unfolding assms(1) CascadingConditionNode walker_handle_default_raising.simps e
      by (rule refl)
  next
    case (SwitchCaseNode x cs d a)
    then have e: "map (\<lambda>kn. with_key (fst kn) (h (snd kn))) cs
               = map (\<lambda>kn. with_key (fst kn) (h' (snd kn))) cs"
      "map_option h d = map_option h' d"
      using p [of cs] ob [of d] by auto
    show ?thesis
      unfolding assms(1) SwitchCaseNode walker_handle_default_raising.simps e by (rule refl)
  next
    case (MultiNode ns a i)
    then have e: "map h ns = map h' ns" using l [of ns] by simp
    show ?thesis
      unfolding assms(1) MultiNode walker_handle_default_raising.simps e by (rule refl)
  next
    case (SequenceNode a ns)
    then have e: "map h ns = map h' ns" using l [of ns] by simp
    show ?thesis
      unfolding assms(1) SequenceNode walker_handle_default_raising.simps e by (rule refl)
  qed (use assms in simp_all)
qed

text \<open>
  The test of \<^verbatim>\<open>_rewrite_conditional_jump_to_break\<close> that skips a jump to the next
  sibling in the same sequence; \<open>next_addr\<close> is the address of that sibling,
  \<^verbatim>\<open>None\<close> when the parent is not a sequence or the block is its last node.
\<close>

fun jumps_to_next :: "stmt \<Rightarrow> int option \<Rightarrow> bool" where
  "jumps_to_next (Jump i tgt ti a) next_addr = const_value_is (Some tgt) next_addr"
| "jumps_to_next s next_addr = False"

text \<open>\<^verbatim>\<open>Block(sub[0].ins_addr, end - sub[0].ins_addr, statements=sub, idx=node.idx)\<close>\<close>

definition sub_block :: "stmt list \<Rightarrow> int \<Rightarrow> int option \<Rightarrow> 'c node" where
  "sub_block sub end_addr i = Block (ins_addr (hd sub)) (end_addr - ins_addr (hd sub)) sub i"

text \<open>
  The loop over the statements of the block, from index \<open>stmt_idx\<close> on, with
  \<^verbatim>\<open>new_nodes\<close> and \<^verbatim>\<open>last_nonjump_stmt_idx\<close>. The break node of a jump is
  never \<^verbatim>\<open>None\<close>.
\<close>

fun break_loop ::
  "'c cond_proc \<Rightarrow> int set \<Rightarrow> int option \<Rightarrow> stmt list \<Rightarrow> int option \<Rightarrow> stmt list \<Rightarrow> nat
   \<Rightarrow> 'c node list \<Rightarrow> nat \<Rightarrow> error + ('c node list \<times> nat)" where
  "break_loop cp successor_addrs next_addr statements i [] stmt_idx new_nodes last_nonjump =
     Inr (new_nodes, last_nonjump)"
| "break_loop cp successor_addrs next_addr statements i (stmt # rest) stmt_idx new_nodes
     last_nonjump =
     (if \<not> (is_ConditionalJump stmt \<or> is_Jump stmt)
      then break_loop cp successor_addrs next_addr statements i rest (Suc stmt_idx) new_nodes
             last_nonjump
      else if jumps_to_next stmt next_addr
      then break_loop cp successor_addrs next_addr statements i rest (Suc stmt_idx) new_nodes
             last_nonjump
      else if list_ex (\<lambda>t. t \<in> successor_addrs) (extract_jump_targets stmt)
      then
        (case loop_create_break_node cp stmt successor_addrs of
           Inl e \<Rightarrow> Inl e
         | Inr None \<Rightarrow>
             break_loop cp successor_addrs next_addr statements i rest (Suc stmt_idx) new_nodes
               last_nonjump
         | Inr (Some break_node) \<Rightarrow>
             break_loop cp successor_addrs next_addr statements i rest (Suc stmt_idx)
               (new_nodes
                @ (if stmt_idx > last_nonjump
                   then [sub_block (take (stmt_idx - last_nonjump) (drop last_nonjump statements))
                           (ins_addr stmt) i]
                   else [])
                @ [break_node])
               (Suc stmt_idx))
      else break_loop cp successor_addrs next_addr statements i rest (Suc stmt_idx) new_nodes
             last_nonjump)"

text \<open>
  \<^verbatim>\<open>_rewrite_conditional_jump_to_break\<close> on a block whose parent is not a switch:
  the block and the nodes inserted after it.
\<close>

definition rewrite_conditional_jump_to_break ::
  "'c cond_proc \<Rightarrow> int set \<Rightarrow> int option \<Rightarrow> int \<Rightarrow> int \<Rightarrow> stmt list \<Rightarrow> int option
   \<Rightarrow> error + 'c node list" where
  "rewrite_conditional_jump_to_break cp successor_addrs next_addr a sz statements i =
     (if statements = [] then Inr [Block a sz statements i]
      else
        (case break_loop cp successor_addrs next_addr statements i statements 0 [] 0 of
           Inl e \<Rightarrow> Inl e
         | Inr (new_nodes, last_nonjump) \<Rightarrow>
             if new_nodes = [] then Inr [Block a sz statements i]
             else Inr (Block a sz [] i
                       # new_nodes
                       @ (if int (length statements) - 1 > int last_nonjump
                          then [sub_block (drop last_nonjump statements) (a + sz) i]
                          else []))))"

text \<open>The nodes of a sequence, each with the address of its next sibling.\<close>

fun with_next_addr :: "'c node list \<Rightarrow> (int option \<times> 'c node) list" where
  "with_next_addr (n # m # ns) = (node_addr m, n) # with_next_addr (m # ns)"
| "with_next_addr [n] = [(None, n)]"
| "with_next_addr [] = []"

lemma with_next_addr_size [termination_simp]:
  "(x, n) \<in> set (with_next_addr ns) \<Longrightarrow> size n < Suc (size_list size ns)"
proof -
  assume "(x, n) \<in> set (with_next_addr ns)"
  then have "n \<in> set ns" by (induction ns rule: with_next_addr.induct) auto
  then show ?thesis
    using size_list_estimation' [of n ns "size n" size] by (simp add: less_Suc_eq_le)
qed

fun in_slot_raising :: "error + 'c node list \<Rightarrow> error + 'c node" where
  "in_slot_raising (Inl e) = Inl e"
| "in_slot_raising (Inr ns) = Inr (in_slot ns)"

fun concat_raising :: "error + 'a list list \<Rightarrow> error + 'a list" where
  "concat_raising (Inl e) = Inl e"
| "concat_raising (Inr xss) = Inr (concat xss)"

text \<open>
  The walk of \<^verbatim>\<open>_rewrite_conditional_jumps_to_breaks\<close>: the handler of blocks, the
  dummy handlers of loops and switches, and the walker's default handlers. \<open>next_addr\<close>
  is the address of the next sibling of the node in a sequence.
\<close>

fun rewrite_breaks_walk ::
  "'c cond_proc \<Rightarrow> int set \<Rightarrow> int option \<Rightarrow> 'c node \<Rightarrow> error + 'c node list" where
  "rewrite_breaks_walk cp succs next_addr (Block a sz stmts i) =
     rewrite_conditional_jump_to_break cp succs next_addr a sz stmts i"
| "rewrite_breaks_walk cp succs next_addr (SequenceNode a ns) =
     (case concat_raising
             (collect (map (\<lambda>xn. rewrite_breaks_walk cp succs (fst xn) (snd xn))
                         (with_next_addr ns))) of
        Inl e \<Rightarrow> Inl e
      | Inr ms \<Rightarrow> Inr [SequenceNode a ms])"
| "rewrite_breaks_walk cp succs next_addr (MultiNode ns a i) =
     (case concat_raising (collect (map (rewrite_breaks_walk cp succs None) ns)) of
        Inl e \<Rightarrow> Inl e
      | Inr ms \<Rightarrow> Inr [MultiNode ms a i])"
| "rewrite_breaks_walk cp succs next_addr (LoopNode s c body a) = Inr [LoopNode s c body a]"
| "rewrite_breaks_walk cp succs next_addr (SwitchCaseNode e cs d a) =
     Inr [SwitchCaseNode e cs d a]"
| "rewrite_breaks_walk cp succs next_addr n =
     (case walker_handle_default_raising
             (\<lambda>m. in_slot_raising (rewrite_breaks_walk cp succs None m)) n of
        Inl e \<Rightarrow> Inl e
      | Inr n' \<Rightarrow> Inr [n'])"

text \<open>
  \<^verbatim>\<open>StructurerBase._rewrite_conditional_jumps_to_breaks\<close>. As for the continues, a
  root that is a block is a \<^verbatim>\<open>TypeError\<close>.
\<close>

fun rewrite_conditional_jumps_to_breaks ::
  "'c cond_proc \<Rightarrow> 'c node \<Rightarrow> int set \<Rightarrow> error + 'c node" where
  "rewrite_conditional_jumps_to_breaks cp (Block a sz stmts i) successor_addrs = Inl TypeError"
| "rewrite_conditional_jumps_to_breaks cp loop_node successor_addrs =
     in_slot_raising (rewrite_breaks_walk cp successor_addrs None loop_node)"

section \<open>Nested loops and switches\<close>

text \<open>
  The loops of a tree that are not inside another loop, as they stand, in the order of the
  walk; and the same for loops and switches together.
\<close>

fun nested_loops :: "'c node \<Rightarrow> 'c node list" where
  "nested_loops (LoopNode s c body a) = [LoopNode s c body a]"
| "nested_loops n = concat (map nested_loops (children n))"

fun nested_loops_and_switches :: "'c node \<Rightarrow> 'c node list" where
  "nested_loops_and_switches (LoopNode s c body a) = [LoopNode s c body a]"
| "nested_loops_and_switches (SwitchCaseNode e cs d a) = [SwitchCaseNode e cs d a]"
| "nested_loops_and_switches n = concat (map nested_loops_and_switches (children n))"

fun is_LoopNode :: "'c node \<Rightarrow> bool" where
  "is_LoopNode (LoopNode s c body a) = True"
| "is_LoopNode n = False"

fun is_SwitchCaseNode :: "'c node \<Rightarrow> bool" where
  "is_SwitchCaseNode (SwitchCaseNode e cs d a) = True"
| "is_SwitchCaseNode n = False"

fun is_container :: "'c node \<Rightarrow> bool" where
  "is_container (SequenceNode a ns) = True"
| "is_container (MultiNode ns a i) = True"
| "is_container n = False"

section \<open>The end of a loop body\<close>

text \<open>
  The last child of a sequence or \<^verbatim>\<open>MultiNode\<close>, and of its trailing sequences and
  \<^verbatim>\<open>MultiNode\<close>s, is not a continue node.
\<close>

fun no_trailing_continue :: "'c node \<Rightarrow> bool" where
  "no_trailing_continue (SequenceNode a ns) =
     (if ns = [] then True
      else \<not> is_ContinueNode (last ns) \<and> no_trailing_continue (last ns))"
| "no_trailing_continue (MultiNode ns a i) =
     (if ns = [] then True
      else \<not> is_ContinueNode (last ns) \<and> no_trailing_continue (last ns))"
| "no_trailing_continue n = True"

text \<open>
  The blocks of a tree that are not inside a loop, and the child lists of the sequences and
  \<^verbatim>\<open>MultiNode\<close>s of a tree that are not inside a loop.
\<close>

fun blocks_outside_loops :: "'c node \<Rightarrow> 'c node list" where
  "blocks_outside_loops (Block a sz stmts i) = [Block a sz stmts i]"
| "blocks_outside_loops (LoopNode s c body a) = []"
| "blocks_outside_loops n = concat (map blocks_outside_loops (children n))"

fun container_lists :: "'c node \<Rightarrow> 'c node list list" where
  "container_lists (LoopNode s c body a) = []"
| "container_lists (SequenceNode a ns) = ns # concat (map container_lists ns)"
| "container_lists (MultiNode ns a i) = ns # concat (map container_lists ns)"
| "container_lists n = concat (map container_lists (children n))"

text \<open>
  The children of a sequence or \<^verbatim>\<open>MultiNode\<close> after
  \<^verbatim>\<open>_remove_continue_node_at_loop_body_ends\<close>: a continue node at the end is dropped,
  any other last child is handled in turn.
\<close>

definition drop_trailing_continue :: "'c node list \<Rightarrow> 'c node list" where
  "drop_trailing_continue L =
     (if L = [] then L
      else if is_ContinueNode (last L) then butlast L
      else butlast L @ [remove_continue_node_at_loop_body_ends (last L)])"

text \<open>A concrete condition processor for the closed examples: conditions are strings.\<close>

fun show_expr :: "expr \<Rightarrow> string" where
  "show_expr (Const i v b) = ''const''"
| "show_expr (UnaryOp i opr e) = opr @ ''('' @ show_expr e @ '')''"
| "show_expr (MultiStatementExpression i a) = ''mse''"
| "show_expr (OtherExpr i n) = (if n = 0 then ''x'' else if n = 1 then ''y'' else ''z'')"

definition example_cp :: "string cond_proc" where
  "example_cp =
     \<lparr> ast_from_ail = show_expr,
       ast_from_ast = (\<lambda>c. c),
       simplify_condition = (\<lambda>c. ''simplify('' @ c @ '')''),
       claripy_Not = (\<lambda>c. ''Not('' @ c @ '')''),
       claripy_And = (\<lambda>a b. ''And('' @ a @ '', '' @ b @ '')''),
       claripy_Or = (\<lambda>a b. ''Or('' @ a @ '', '' @ b @ '')'') \<rparr>"

section \<open>Properties of break-node synthesis\<close>

text \<open>
  C1. For a conditional jump whose true target and false target are both constants, with
  values \<open>t\<close> and \<open>f\<close>: when only \<open>t\<close> is a loop successor the result is a
  \<^verbatim>\<open>ConditionalBreakNode\<close> over the statement's condition with target \<open>t\<close>; when
  only \<open>f\<close> is a loop successor it is a \<^verbatim>\<open>ConditionalBreakNode\<close> over the
  negation of the statement's condition with target \<open>f\<close>; when both are loop successors
  it is a plain \<^verbatim>\<open>BreakNode\<close> with target \<open>f\<close>.
\<close>

theorem loop_create_break_node_const_targets:
  "(t \<in> succs \<and> f \<notin> succs \<longrightarrow>
      loop_create_break_node cp
        (ConditionalJump i c (Some (Const it t bt)) (Some (Const jf f bf)) tti fti a) succs
      = Inr (Some (ConditionalBreakNode (Some a) (ast_from_ail cp c) t)))
   \<and> (f \<in> succs \<and> t \<notin> succs \<longrightarrow>
      loop_create_break_node cp
        (ConditionalJump i c (Some (Const it t bt)) (Some (Const jf f bf)) tti fti a) succs
      = Inr (Some (ConditionalBreakNode (Some a)
                     (ast_from_ail cp (UnaryOp (expr_idx c) ''Not'' c)) f)))
   \<and> (t \<in> succs \<and> f \<in> succs \<longrightarrow>
      loop_create_break_node cp
        (ConditionalJump i c (Some (Const it t bt)) (Some (Const jf f bf)) tti fti a) succs
      = Inr (Some (BreakNode (Some a) f)))"
  by simp

theorem loop_create_break_node_const_targets_witness:
  "loop_create_break_node example_cp
     (ConditionalJump None (OtherExpr None 0) (Some (Const None 16 64)) (Some (Const None 32 64))
        None None 8) {16}
     = Inr (Some (ConditionalBreakNode (Some 8) ''x'' 16))
   \<and> loop_create_break_node example_cp
     (ConditionalJump None (OtherExpr None 0) (Some (Const None 16 64)) (Some (Const None 32 64))
        None None 8) {32}
     = Inr (Some (ConditionalBreakNode (Some 8) ''Not(x)'' 32))
   \<and> loop_create_break_node example_cp
     (ConditionalJump None (OtherExpr None 0) (Some (Const None 16 64)) (Some (Const None 32 64))
        None None 8) {16, 32}
     = Inr (Some (BreakNode (Some 8) 32))"
  using
    loop_create_break_node_const_targets [of 16 "{16}" 32 example_cp None "OtherExpr None 0"
      None 64 None 64 None None 8]
    loop_create_break_node_const_targets [of 16 "{32}" 32 example_cp None "OtherExpr None 0"
      None 64 None 64 None None 8]
    loop_create_break_node_const_targets [of 16 "{16, 32}" 32 example_cp None "OtherExpr None 0"
      None 64 None 64 None None 8]
  by (simp add: example_cp_def)

text \<open>
  C2. The claim says that a conditional jump neither of whose targets lies in the
  loop-successor address set makes the operation raise the structuring error
  \<^verbatim>\<open>AngrDecompilationError\<close>. The operation ends with that very \<^verbatim>\<open>raise\<close>, but on
  its way it reads \<^verbatim>\<open>.value\<close> of each present target with no test that the target is a
  constant, where the other passes of the file test \<^verbatim>\<open>isinstance(..., Const)\<close> first.
  At a conditional jump whose true target is an expression other than a constant (so that
  it lies in no address set) and whose false target is absent, the read fails: the error
  that comes out is an \<^verbatim>\<open>AttributeError\<close>, and not the structuring error.
\<close>

theorem loop_create_break_node_nonconst_target_attribute_error:
  "\<not> target_in (Some (OtherExpr None 1)) {16}
   \<and> \<not> target_in None {16}
   \<and> loop_create_break_node example_cp
        (ConditionalJump None (OtherExpr None 0) (Some (OtherExpr None 1)) None None None 8) {16}
      = Inl AttributeError
   \<and> loop_create_break_node example_cp
        (ConditionalJump None (OtherExpr None 0) (Some (OtherExpr None 1)) None None None 8) {16}
      \<noteq> Inl AngrDecompilationError"
  by simp

text \<open>
  The same read fails under \<^verbatim>\<open>_rewrite_conditional_jumps_to_breaks\<close>, the caller of the
  operation in this file: a block of a loop body that ends with a conditional jump whose true
  target is a loop successor and whose false target is not a constant makes the whole pass
  end with the \<^verbatim>\<open>AttributeError\<close>.
\<close>

lemma rewrite_conditional_jumps_to_breaks_attribute_error:
  "rewrite_conditional_jumps_to_breaks example_cp
     (SequenceNode (Some 0)
        [Block 0 12 [OtherStmt None 0 0,
                     ConditionalJump None (OtherExpr None 0) (Some (Const None 16 64))
                       (Some (OtherExpr None 1)) None None 8] None])
     {16}
   = Inl AttributeError"
  by (simp add: rewrite_conditional_jump_to_break_def)

text \<open>
  Where every present target is a constant, the structuring error is raised as the operation
  intends: for every conditional jump whose true target and false target are each absent or
  a constant, and neither of which lies in the loop-successor address set, the operation
  returns no node and raises \<^verbatim>\<open>AngrDecompilationError\<close>.
\<close>

lemma loop_create_break_node_no_exit_raises:
  assumes "const_or_absent tt" and "const_or_absent ft"
    and "\<not> target_in tt succs" and "\<not> target_in ft succs"
  shows "loop_create_break_node cp (ConditionalJump i c tt ft tti fti a) succs
         = Inl AngrDecompilationError"
proof -
  obtain tv where tv: "target_value tt = Inr tv" "value_not_in tv succs" "\<not> value_in tv succs"
  proof (cases tt)
    case None
    then show ?thesis using that by simp
  next
    case (Some e)
    with assms(1,3) show ?thesis using that by (cases e) simp_all
  qed
  obtain fv where fv: "target_value ft = Inr fv" "value_not_in fv succs" "\<not> value_in fv succs"
  proof (cases ft)
    case None
    then show ?thesis using that by simp
  next
    case (Some e)
    with assms(2,4) show ?thesis using that by (cases e) simp_all
  qed
  from tv fv show ?thesis by simp
qed

lemma loop_create_break_node_no_exit_raises_example:
  "loop_create_break_node example_cp
     (ConditionalJump None (OtherExpr None 0) (Some (Const None 16 64)) None None None 8) {32}
   = Inl AngrDecompilationError"
proof -
  have 1: "const_or_absent (Some (Const None 16 64))" by simp
  have 2: "const_or_absent None" by simp
  have 3: "\<not> target_in (Some (Const None 16 64)) {32}" by simp
  have 4: "\<not> target_in None {32}" by simp
  show ?thesis by (rule loop_create_break_node_no_exit_raises [OF 1 2 3 4])
qed

section \<open>Properties of the removal of redundant jumps\<close>

lemma fix_statements_jump:
  "const_value_is (Some tgt) next_addr \<Longrightarrow>
   fix_statements k next_addr (stmts @ [Jump i tgt ti a]) = stmts"
  by (simp add: fix_statements_def)

lemma fix_statements_true_target:
  "const_value_is tt next_addr \<Longrightarrow>
   fix_statements k next_addr (stmts @ [ConditionalJump i c tt ft tti fti a])
   = stmts @ [ConditionalJump i (UnaryOp None ''Not'' c) ft None fti None a]"
  by (simp add: fix_statements_def)

lemma fix_statements_false_target:
  "\<not> const_value_is tt next_addr \<Longrightarrow> const_value_is ft next_addr \<Longrightarrow>
   fix_statements k next_addr (stmts @ [ConditionalJump i c tt ft tti fti a])
   = stmts @ [ConditionalJump i c tt None (if k then fti else tti) None a]"
  by (simp add: fix_statements_def)

lemma length_fix_nodes [simp]: "length (fix_nodes k ns) = length ns"
  by (induction k ns rule: fix_nodes.induct) auto

lemma fix_nodes_nth:
  "Suc j < length ns \<Longrightarrow>
   fix_nodes k ns ! j = fix_this_node k (node_addr (ns ! Suc j)) (ns ! j)"
proof (induction k ns arbitrary: j rule: fix_nodes.induct)
  case (1 k n m ns)
  then show ?case by (cases j) auto
qed auto

text \<open>
  What the pass does to a block that is a child of a sequence or of a
  \<^verbatim>\<open>MultiNode\<close> and has a next sibling: its statements are fixed against the
  address of that sibling, by the handler of the parent's variant.
\<close>

lemma remove_redundant_jumps_block_in_sequence:
  assumes "Suc j < length ns" and "ns ! j = Block ba sz stmts bi"
  shows "\<exists>ms. remove_redundant_jumps (SequenceNode a ns) = SequenceNode a ms
            \<and> length ms = length ns
            \<and> ms ! j = Block ba sz (fix_statements False (node_addr (ns ! Suc j)) stmts) bi"
  using assms by (simp add: fix_nodes_nth)

lemma remove_redundant_jumps_block_in_multinode:
  assumes "Suc j < length ns" and "ns ! j = Block ba sz stmts bi"
  shows "\<exists>ms. remove_redundant_jumps (MultiNode ns a i) = MultiNode ms a i
            \<and> length ms = length ns
            \<and> ms ! j = Block ba sz (fix_statements True (node_addr (ns ! Suc j)) stmts) bi"
  using assms by (simp add: fix_nodes_nth)

text \<open>
  C5. The claim says that, when the false target of a two-target conditional jump is the
  redundant one, the true target is kept together with its index. The handler of
  \<^verbatim>\<open>SequenceNode\<close> does so; the handler of \<^verbatim>\<open>MultiNode\<close> passes the index
  of the false target instead. Below, the same two blocks (a conditional jump with true target
  \<open>0x40\<close>, index 1, and false target 4, index 2, followed by the block at address 4) are
  run as the children of a sequence and of a \<^verbatim>\<open>MultiNode\<close>: the sequence keeps
  index 1, the \<^verbatim>\<open>MultiNode\<close> ends with index 2.
\<close>

theorem remove_redundant_jumps_multinode_true_target_idx:
  "remove_redundant_jumps
     (SequenceNode (Some 0)
        [Block 0 4 [ConditionalJump None (OtherExpr None 0) (Some (Const None 64 64))
                      (Some (Const None 4 64)) (Some 1) (Some 2) 0] None,
         Block 4 4 [] None] :: string node)
   = SequenceNode (Some 0)
        [Block 0 4 [ConditionalJump None (OtherExpr None 0) (Some (Const None 64 64))
                      None (Some 1) None 0] None,
         Block 4 4 [] None]
   \<and> remove_redundant_jumps
     (MultiNode
        [Block 0 4 [ConditionalJump None (OtherExpr None 0) (Some (Const None 64 64))
                      (Some (Const None 4 64)) (Some 1) (Some 2) 0] None,
         Block 4 4 [] None] (Some 0) None :: string node)
   = MultiNode
        [Block 0 4 [ConditionalJump None (OtherExpr None 0) (Some (Const None 64 64))
                      None (Some 2) None 0] None,
         Block 4 4 [] None] (Some 0) None"
  by (simp add: fix_statements_def)

section \<open>Properties of the merging of conditional breaks\<close>

lemma is_ConditionalBreakNode_default_flag:
  "is_ConditionalBreakNode (snd (walker_handle_default_flag h n)) = is_ConditionalBreakNode n"
  by (cases n) auto

lemma is_ConditionalBreakNode_handle:
  "is_ConditionalBreakNode (snd (merge_conditional_breaks_handle cp n)) = is_ConditionalBreakNode n"
  by (cases n) (auto split: prod.splits)

lemma is_ConditionalBreakNode_handle_unwrap:
  "is_ConditionalBreakNode (code_unwrap (snd (merge_conditional_breaks_handle cp n)))
   = is_ConditionalBreakNode (code_unwrap n)"
  by (cases n) (auto split: prod.splits simp: is_ConditionalBreakNode_handle)

lemma is_ConditionalBreakNode_rewrap:
  assumes "\<And>n. is_ConditionalBreakNode (snd (h n)) = is_ConditionalBreakNode n"
    and "\<And>n. is_ConditionalBreakNode (code_unwrap (snd (h n)))
              = is_ConditionalBreakNode (code_unwrap n)"
  shows "is_ConditionalBreakNode (code_unwrap (code_rewrap old (snd (h (code_unwrap old)))))
         = is_ConditionalBreakNode (code_unwrap old)"
proof (cases old)
  case (CodeNode n rc)
  then show ?thesis by (simp add: assms(1))
qed (use assms(2) [of old] in simp_all)

lemma is_ConditionalBreakNode_merged_break:
  "is_ConditionalBreakNode n \<Longrightarrow> is_ConditionalBreakNode prev \<Longrightarrow>
   is_ConditionalBreakNode (code_unwrap (merged_break cp n prev))"
  by (cases n; cases prev) auto

lemma merge_breaks_step_nonempty: "snd (merge_breaks_step h cp x acc) \<noteq> []"
  by (simp add: merge_breaks_step_def split: prod.splits)

lemma merge_breaks_step_last:
  assumes "\<And>n. is_ConditionalBreakNode (snd (h n)) = is_ConditionalBreakNode n"
    and "\<And>n. is_ConditionalBreakNode (code_unwrap (snd (h n)))
              = is_ConditionalBreakNode (code_unwrap n)"
  shows "is_ConditionalBreakNode (code_unwrap (last (snd (merge_breaks_step h cp x acc))))
         = is_ConditionalBreakNode (code_unwrap x)"
proof (cases "h (code_unwrap x)")
  case (Pair m handled)
  then show ?thesis
    using is_ConditionalBreakNode_rewrap [of h x, OF assms]
    by (simp add: merge_breaks_step_def is_ConditionalBreakNode_merged_break)
qed

lemma merge_breaks_step_prefix:
  "ys \<noteq> [] \<Longrightarrow>
   merge_breaks_step h cp x (acc @ ys)
   = (fst (merge_breaks_step h cp x ys), acc @ snd (merge_breaks_step h cp x ys))"
  by (simp add: merge_breaks_step_def butlast_append split: prod.splits)

lemma merge_breaks_loop_Cons:
  "merge_breaks_loop h cp (x # xs) acc
   = (fst (merge_breaks_step h cp x acc)
        \<or> fst (merge_breaks_loop h cp xs (snd (merge_breaks_step h cp x acc))),
      snd (merge_breaks_loop h cp xs (snd (merge_breaks_step h cp x acc))))"
  by (simp split: prod.splits)

lemma merge_breaks_loop_prefix:
  "ys \<noteq> [] \<Longrightarrow>
   merge_breaks_loop h cp xs (acc @ ys)
   = (fst (merge_breaks_loop h cp xs ys), acc @ snd (merge_breaks_loop h cp xs ys))"
proof (induction xs arbitrary: ys)
  case Nil
  then show ?case by simp
next
  case (Cons x xs)
  have "snd (merge_breaks_step h cp x ys) \<noteq> []" by (rule merge_breaks_step_nonempty)
  from Cons.IH [OF this] Cons.prems show ?case
    by (simp add: merge_breaks_loop_Cons merge_breaks_step_prefix del: merge_breaks_loop.simps)
qed

lemma merge_breaks_loop_append:
  "merge_breaks_loop h cp (xs @ zs) acc
   = (fst (merge_breaks_loop h cp xs acc)
        \<or> fst (merge_breaks_loop h cp zs (snd (merge_breaks_loop h cp xs acc))),
      snd (merge_breaks_loop h cp zs (snd (merge_breaks_loop h cp xs acc))))"
proof (induction xs arbitrary: acc)
  case Nil
  then show ?case by simp
next
  case (Cons x xs)
  show ?case
    by (simp only: append_Cons merge_breaks_loop_Cons Cons.IH fst_conv snd_conv disj_assoc)
qed

lemma merge_breaks_loop_last:
  assumes "\<And>n. is_ConditionalBreakNode (snd (h n)) = is_ConditionalBreakNode n"
    and "\<And>n. is_ConditionalBreakNode (code_unwrap (snd (h n)))
              = is_ConditionalBreakNode (code_unwrap n)"
    and "xs \<noteq> []"
  shows "snd (merge_breaks_loop h cp xs acc) \<noteq> []
         \<and> is_ConditionalBreakNode (code_unwrap (last (snd (merge_breaks_loop h cp xs acc))))
           = is_ConditionalBreakNode (code_unwrap (last xs))"
  using assms(3)
proof (induction xs arbitrary: acc)
  case Nil
  then show ?case by simp
next
  case (Cons x xs)
  show ?case
  proof (cases "xs = []")
    case True
    then show ?thesis
      using merge_breaks_step_last [of h cp x acc, OF assms(1,2)]
            merge_breaks_step_nonempty [of h cp x acc]
      by (simp only: merge_breaks_loop_Cons snd_conv merge_breaks_loop.simps last.simps if_True)
         simp
  next
    case False
    with Cons.IH [of "snd (merge_breaks_step h cp x acc)"] show ?thesis
      by (simp add: merge_breaks_loop_Cons del: merge_breaks_loop.simps)
  qed
qed

text \<open>A node that is not a conditional break is handled whatever the list built so far.\<close>

lemma merge_breaks_loop_from_other:
  assumes "xs = [] \<or> \<not> is_ConditionalBreakNode (code_unwrap (hd xs))"
  shows "merge_breaks_loop h cp xs acc
         = (fst (merge_breaks_loop h cp xs []), acc @ snd (merge_breaks_loop h cp xs []))"
proof (cases xs)
  case Nil
  then show ?thesis by simp
next
  case (Cons x rest)
  with assms have nb: "\<not> is_ConditionalBreakNode (code_unwrap x)" by simp
  obtain m handled where hx: "h (code_unwrap x) = (m, handled)" by (cases "h (code_unwrap x)")
  from nb hx have st: "merge_breaks_step h cp x zs = (m, zs @ [code_rewrap x handled])" for zs
    by (simp add: merge_breaks_step_def)
  show ?thesis
    using merge_breaks_loop_prefix [of "[code_rewrap x handled]" h cp rest acc]
    by (simp only: Cons merge_breaks_loop_Cons st fst_conv snd_conv append_Nil) simp
qed

text \<open>
  C7, as the claim states it, fails. In a run of three conditional breaks with conditions
  \<open>A\<close>, \<open>B\<close>, \<open>C\<close> and the same target, the first two are consecutive siblings, yet
  no conditional break with the condition \<^verbatim>\<open>simplify(Or(A, B))\<close> is left: the pass merges
  every conditional break into the one before it and leaves a single node for the whole run.
  And on a pair alone the disjunction is built with the second condition as its first
  operand, \<^verbatim>\<open>Or(B, A)\<close>.
\<close>

theorem merge_conditional_breaks_run_counterexample:
  "merge_conditional_breaks example_cp
     (SequenceNode (Some 0)
        [ConditionalBreakNode (Some 4) ''A'' 64, ConditionalBreakNode (Some 8) ''B'' 64,
         ConditionalBreakNode (Some 12) ''C'' 64])
   = (True,
      SequenceNode (Some 0)
        [ConditionalBreakNode (Some 12) ''simplify(Or(C, simplify(Or(B, A))))'' 64])
   \<and> simplify_condition example_cp (claripy_Or example_cp ''A'' ''B'')
       \<noteq> ''simplify(Or(C, simplify(Or(B, A))))''
   \<and> merge_conditional_breaks example_cp
     (SequenceNode (Some 0)
        [ConditionalBreakNode (Some 4) ''A'' 64, ConditionalBreakNode (Some 8) ''B'' 64])
   = (True, SequenceNode (Some 0) [ConditionalBreakNode (Some 8) ''simplify(Or(B, A))'' 64])
   \<and> simplify_condition example_cp (claripy_Or example_cp ''A'' ''B'')
       \<noteq> ''simplify(Or(B, A))''"
  by (simp add: merge_conditional_breaks_def merge_breaks_step_def example_cp_def)

text \<open>
  C7, amended. Let two conditional breaks with conditions \<open>A\<close> and \<open>B\<close> and the same
  target \<open>E\<close> be consecutive children of a sequence, the node before them (if any) and
  the node after them (if any) not being conditional breaks, so that the two are the whole run.
  The pass replaces the pair by one conditional break, at the address of the second, with
  target \<open>E\<close> and with the condition \<^verbatim>\<open>simplify_condition\<close> of the
  disjunction of the two conditions, the second condition first (\<^verbatim>\<open>Or(B, A)\<close>), and
  it reports that it merged. The children before and after the pair are what the pass makes
  of them on their own.
\<close>

theorem merge_conditional_breaks_pair:
  assumes "pre = [] \<or> \<not> is_ConditionalBreakNode (code_unwrap (last pre))"
    and "post = [] \<or> \<not> is_ConditionalBreakNode (code_unwrap (hd post))"
  shows "merge_conditional_breaks cp
           (SequenceNode a
              (pre @ [ConditionalBreakNode a1 A E, ConditionalBreakNode a2 B E] @ post))
         = (True,
            SequenceNode a
              (children (snd (merge_conditional_breaks cp (SequenceNode a pre)))
               @ [ConditionalBreakNode a2 (simplify_condition cp (claripy_Or cp B A)) E]
               @ children (snd (merge_conditional_breaks cp (SequenceNode a post)))))"
proof -
  let ?h = "merge_conditional_breaks_handle cp"
  let ?pre' = "snd (merge_breaks_loop ?h cp pre [])"
  let ?post' = "snd (merge_breaks_loop ?h cp post [])"
  let ?M = "ConditionalBreakNode a2 (simplify_condition cp (claripy_Or cp B A)) E"
  have last_pre: "?pre' = [] \<or> \<not> is_ConditionalBreakNode (code_unwrap (last ?pre'))"
  proof (cases "pre = []")
    case True
    then show ?thesis by simp
  next
    case False
    with assms(1) merge_breaks_loop_last [of ?h pre cp "[]", OF is_ConditionalBreakNode_handle
      is_ConditionalBreakNode_handle_unwrap]
    show ?thesis by simp
  qed
  have s1: "merge_breaks_step ?h cp (ConditionalBreakNode a1 A E) ?pre'
            = (False, ?pre' @ [ConditionalBreakNode a1 A E])"
    using last_pre by (auto simp: merge_breaks_step_def)
  have s2: "merge_breaks_step ?h cp (ConditionalBreakNode a2 B E)
              (?pre' @ [ConditionalBreakNode a1 A E])
            = (True, ?pre' @ [?M])"
    by (simp add: merge_breaks_step_def)
  have pair: "merge_breaks_loop ?h cp [ConditionalBreakNode a1 A E, ConditionalBreakNode a2 B E] ?pre'
              = (True, ?pre' @ [?M])"
    by (simp only: merge_breaks_loop_Cons s1 s2 fst_conv snd_conv merge_breaks_loop.simps) simp
  have rest: "merge_breaks_loop ?h cp post (?pre' @ [?M])
              = (fst (merge_breaks_loop ?h cp post []), (?pre' @ [?M]) @ ?post')"
    by (rule merge_breaks_loop_from_other [OF assms(2)])
  have "merge_breaks_loop ?h cp (pre @ [ConditionalBreakNode a1 A E, ConditionalBreakNode a2 B E] @ post) []
        = (True, ?pre' @ [?M] @ ?post')"
    by (simp only: merge_breaks_loop_append [of ?h cp pre] 
                   merge_breaks_loop_append [of ?h cp "[ConditionalBreakNode a1 A E, ConditionalBreakNode a2 B E]"]
                   pair rest fst_conv snd_conv) simp
  then show ?thesis
    unfolding merge_conditional_breaks_def merge_conditional_breaks_handle.simps
    by (simp split: prod.splits del: merge_breaks_loop.simps)
qed


theorem merge_conditional_breaks_pair_witness:
  "merge_conditional_breaks example_cp
     (SequenceNode (Some 0)
        ([Block 0 4 [] None]
         @ [ConditionalBreakNode (Some 4) ''A'' 64, ConditionalBreakNode (Some 8) ''B'' 64]
         @ [Block 16 4 [] None]))
   = (True,
      SequenceNode (Some 0)
        [Block 0 4 [] None,
         ConditionalBreakNode (Some 8) ''simplify(Or(B, A))'' 64,
         Block 16 4 [] None])"
proof -
  have 1: "[Block 0 4 [] None :: string node] = []
           \<or> \<not> is_ConditionalBreakNode (code_unwrap (last [Block 0 4 [] None :: string node]))"
    by simp
  have 2: "[Block 16 4 [] None :: string node] = []
           \<or> \<not> is_ConditionalBreakNode (code_unwrap (hd [Block 16 4 [] None :: string node]))"
    by simp
  show ?thesis
    using merge_conditional_breaks_pair [OF 1 2, of example_cp "Some 0" "Some 4" "''A''" 64
        "Some 8" "''B''"]
    by (simp add: merge_conditional_breaks_def merge_breaks_step_def example_cp_def)
qed

section \<open>Properties of the merging of nested conditionals\<close>

lemma condbreaknode_break [simp]:
  "condbreaknode (ConditionalBreakNode a c t) = Some (a, c, t)"
  by (simp add: condbreaknode.simps)

lemma condbreaknode_single [simp]:
  "condbreaknode (SequenceNode a [m]) = condbreaknode m"
  by (subst condbreaknode.simps) simp

lemma condbreaknode_code_single [simp]:
  "condbreaknode (CodeNode (SequenceNode a [m]) rc) = condbreaknode m"
  by (subst condbreaknode.simps) simp

lemma merge_nesting_conditionals_sequence:
  "merge_nesting_conditionals cp (SequenceNode a ns)
   = (list_ex (\<lambda>n. fst (merge_nesting_step (merge_nesting_conditionals_handle cp) cp n)) ns,
      SequenceNode a
        (map (\<lambda>n. snd (merge_nesting_step (merge_nesting_conditionals_handle cp) cp n)) ns))"
  by (simp add: merge_nesting_conditionals_def)

lemma merge_nesting_step_condition:
  "merge_nesting_step h cp
     (ConditionNode ca rc A (Some (ConditionNode cb rcb B (Some S) None)) None)
   = (True, ConditionNode ca None
              (simplify_condition cp (claripy_And cp (ast_from_ast cp A) (ast_from_ast cp B)))
              (Some S) None)"
  by (simp add: merge_nesting_step_def condnode_truenode_only_def)

lemma merge_nesting_step_break:
  "merge_nesting_step h cp (ConditionNode ca rc A (Some (ConditionalBreakNode ba B E)) None)
   = (True, ConditionalBreakNode ba
              (simplify_condition cp (claripy_And cp (ast_from_ast cp A) (ast_from_ast cp B))) E)"
  by (simp add: merge_nesting_step_def condnode_truenode_only_def)

lemma merge_nesting_step_wrapped_break:
  "merge_nesting_step h cp
     (ConditionNode ca rc A (Some (SequenceNode sa [ConditionalBreakNode ba B E])) None)
   = (True, ConditionalBreakNode ba
              (simplify_condition cp (claripy_And cp (ast_from_ast cp A) (ast_from_ast cp B))) E)"
  by (simp add: merge_nesting_step_def condnode_truenode_only_def)

text \<open>
  C8. A child of a sequence of the form
  \<^verbatim>\<open>Condition(A, true_node=Condition(B, true_node=S, false_node=None), false_node=None)\<close>
  is replaced by \<^verbatim>\<open>Condition(simplify(And(A, B)), true_node=S, false_node=None)\<close>;
  when the true node is a conditional break with condition \<open>B\<close> and target \<open>E\<close>,
  alone or as the only node of a sequence, the child is replaced by
  \<^verbatim>\<open>ConditionalBreak(simplify(And(A, B)), target=E)\<close>. In both cases the pass
  reports that it merged. The two conditions go through
  \<^verbatim>\<open>claripy_ast_from_ail_condition\<close> before \<^verbatim>\<open>claripy.And\<close>.
\<close>

theorem merge_nesting_conditionals_child:
  assumes "j < length ns"
  shows "(ns ! j = ConditionNode ca rc A (Some (ConditionNode cb rcb B (Some S) None)) None
          \<longrightarrow> (\<exists>ms. merge_nesting_conditionals cp (SequenceNode a ns) = (True, SequenceNode a ms)
                    \<and> length ms = length ns
                    \<and> ms ! j = ConditionNode ca None
                                 (simplify_condition cp
                                    (claripy_And cp (ast_from_ast cp A) (ast_from_ast cp B)))
                                 (Some S) None))
       \<and> (ns ! j = ConditionNode ca rc A (Some (ConditionalBreakNode ba B E)) None
          \<or> ns ! j = ConditionNode ca rc A (Some (SequenceNode sa [ConditionalBreakNode ba B E])) None
          \<longrightarrow> (\<exists>ms. merge_nesting_conditionals cp (SequenceNode a ns) = (True, SequenceNode a ms)
                    \<and> length ms = length ns
                    \<and> ms ! j = ConditionalBreakNode ba
                                 (simplify_condition cp
                                    (claripy_And cp (ast_from_ast cp A) (ast_from_ast cp B)))
                                 E))"
proof -
  let ?step = "merge_nesting_step (merge_nesting_conditionals_handle cp) cp"
  have flag: "fst (?step (ns ! j)) \<Longrightarrow> list_ex (\<lambda>n. fst (?step n)) ns"
    using assms by (auto simp: list_ex_iff)
  show ?thesis
    using assms flag
    by (auto simp: merge_nesting_conditionals_sequence merge_nesting_step_condition
          merge_nesting_step_break merge_nesting_step_wrapped_break)
qed

theorem merge_nesting_conditionals_child_witness:
  "merge_nesting_conditionals example_cp
     (SequenceNode (Some 0)
        [ConditionNode (Some 4) None ''A''
           (Some (ConditionNode (Some 8) None ''B'' (Some (Block 12 4 [] None)) None)) None])
   = (True, SequenceNode (Some 0)
        [ConditionNode (Some 4) None ''simplify(And(A, B))'' (Some (Block 12 4 [] None)) None])
   \<and> merge_nesting_conditionals example_cp
     (SequenceNode (Some 0)
        [ConditionNode (Some 4) None ''A''
           (Some (SequenceNode None [ConditionalBreakNode (Some 8) ''B'' 64])) None])
   = (True, SequenceNode (Some 0) [ConditionalBreakNode (Some 8) ''simplify(And(A, B))'' 64])"
proof -
  let ?n1 = "ConditionNode (Some 4) None ''A''
               (Some (ConditionNode (Some 8) None ''B'' (Some (Block 12 4 [] None)) None)) None"
  let ?n2 = "ConditionNode (Some 4) None ''A''
               (Some (SequenceNode None [ConditionalBreakNode (Some 8) ''B'' 64])) None"
  have j1: "(0::nat) < length [?n1]" by simp
  have j2: "(0::nat) < length [?n2]" by simp
  show ?thesis
    using
      merge_nesting_conditionals_child [OF j1, where ca = "Some 4" and rc = None and A = "''A''"
        and cb = "Some 8" and rcb = None and B = "''B''" and S = "Block 12 4 [] None"
        and cp = example_cp and a = "Some 0"]
      merge_nesting_conditionals_child [OF j2, where ca = "Some 4" and rc = None and A = "''A''"
        and ba = "Some 8" and B = "''B''" and E = 64 and sa = None
        and cp = example_cp and a = "Some 0"]
    by (simp add: merge_nesting_conditionals_sequence merge_nesting_step_condition
          merge_nesting_step_wrapped_break example_cp_def)
qed

section \<open>Properties of the end address of a switch\<close>

lemma count_goto_keys: "fst ` set (count_goto t d) = insert t (fst ` set d)"
  by (induction t d rule: count_goto.induct) auto

lemma count_goto_distinct: "distinct (map fst d) \<Longrightarrow> distinct (map fst (count_goto t d))"
  by (induction t d rule: count_goto.induct) (auto simp: count_goto_keys)

lemma map_of_count_goto:
  "map_of (count_goto t d)
   = (map_of d)(t \<mapsto> (case map_of d t of None \<Rightarrow> 1 | Some n \<Rightarrow> Suc n))"
  by (induction t d rule: count_goto.induct) (auto simp: fun_eq_iff)

lemma goto_addrs_of_snoc: "goto_addrs_of (ts @ [t]) = count_goto t (goto_addrs_of ts)"
  by (simp add: goto_addrs_of_def)

lemma goto_addrs_of_distinct: "distinct (map fst (goto_addrs_of ts))"
  by (induction ts rule: rev_induct)
     (simp_all add: goto_addrs_of_snoc count_goto_distinct, simp add: goto_addrs_of_def)

lemma map_of_goto_addrs_of:
  "map_of (goto_addrs_of ts) a = (if a \<in> set ts then Some (count_list ts a) else None)"
proof (induction ts arbitrary: a rule: rev_induct)
  case Nil
  then show ?case by (simp add: goto_addrs_of_def)
next
  case (snoc t ts)
  show ?case using snoc [of a] snoc [of t]
    by (simp add: goto_addrs_of_snoc map_of_count_goto count_notin)
qed

lemma goto_addrs_of_keys: "fst ` set (goto_addrs_of ts) = set ts"
proof (induction ts rule: rev_induct)
  case Nil
  then show ?case by (simp add: goto_addrs_of_def)
next
  case (snoc t ts)
  then show ?case by (simp add: goto_addrs_of_snoc count_goto_keys)
qed

lemma goto_addrs_of_count:
  "(a, n) \<in> set (goto_addrs_of ts) \<Longrightarrow> n = count_list ts a"
  using map_of_goto_addrs_of [of ts a] goto_addrs_of_distinct [of ts]
  by (auto split: if_splits)

lemma goto_addrs_of_empty: "goto_addrs_of ts = [] \<longleftrightarrow> ts = []"
  using goto_addrs_of_keys [of ts] by auto

lemma length_goto_addrs_of: "length (goto_addrs_of ts) = card (set ts)"
  using goto_addrs_of_distinct [of ts] goto_addrs_of_keys [of ts]
  by (metis distinct_card length_map list.set_map)

text \<open>The first item of a list sorted by descending count has the greatest count.\<close>

lemma sort_key_first:
  assumes "g \<noteq> []"
  shows "\<exists>x xs. sort_key f g = x # xs \<and> x \<in> set g \<and> (\<forall>y \<in> set g. f x \<le> f y)"
proof -
  have ne: "sort_key f g \<noteq> []" using assms by (metis length_sort list.size(3) length_0_conv)
  then obtain x xs where xs: "sort_key f g = x # xs" by (cases "sort_key f g") auto
  have "sorted (map f (sort_key f g))" by simp
  with xs have "\<forall>y \<in> set (x # xs). f x \<le> f y" by auto
  moreover have "set (x # xs) = set g" using xs by (metis set_sort)
  ultimately show ?thesis using xs by auto
qed

lemma restricted_goto_addrs:
  fixes ts :: "int list" and R :: "int set"
  assumes d_def: "d = goto_addrs_of ts"
    and g_def: "g = (if length d > 1 \<and> list_ex (\<lambda>x. fst x \<in> R) d
                     then filter (\<lambda>x. fst x \<in> R) d else d)"
    and "ts \<noteq> []"
  shows "g \<noteq> []" and "fst ` set g = goto_pool ts R"
    and "\<And>y. y \<in> set g \<Longrightarrow> snd y = count_list ts (fst y)"
proof -
  have keys: "fst ` set d = set ts" unfolding d_def by (rule goto_addrs_of_keys)
  have len: "length d = card (set ts)" unfolding d_def by (rule length_goto_addrs_of)
  have dne: "d \<noteq> []" unfolding d_def using assms(3) by (simp add: goto_addrs_of_empty)
  have ex: "list_ex (\<lambda>x. fst x \<in> R) d \<longleftrightarrow> set ts \<inter> R \<noteq> {}"
  proof -
    have "list_ex (\<lambda>x. fst x \<in> R) d \<longleftrightarrow> fst ` set d \<inter> R \<noteq> {}"
      by (auto simp: list_ex_iff)
    then show ?thesis by (simp only: keys)
  qed
  have fk: "fst ` set (filter (\<lambda>x. fst x \<in> R) d) = set ts \<inter> R"
  proof -
    have "fst ` set (filter (\<lambda>x. fst x \<in> R) d) = fst ` set d \<inter> R" by auto
    then show ?thesis by (simp only: keys)
  qed
  show "g \<noteq> []"
  proof (cases "length d > 1 \<and> list_ex (\<lambda>x. fst x \<in> R) d")
    case True
    then have "filter (\<lambda>x. fst x \<in> R) d \<noteq> []"
      by (simp add: filter_empty_conv list_ex_iff)
    with True show ?thesis unfolding g_def by simp
  next
    case False
    with dne show ?thesis unfolding g_def by auto
  qed
  show "fst ` set g = goto_pool ts R"
  proof (cases "length d > 1 \<and> list_ex (\<lambda>x. fst x \<in> R) d")
    case True
    then have g: "g = filter (\<lambda>x. fst x \<in> R) d" unfolding g_def by simp
    from True have "card (set ts) > 1 \<and> set ts \<inter> R \<noteq> {}" using ex len by simp
    then have "goto_pool ts R = set ts \<inter> R" by (simp add: goto_pool_def)
    with fk g show ?thesis by simp
  next
    case False
    then have g: "g = d" unfolding g_def by auto
    from False have "\<not> (card (set ts) > 1 \<and> set ts \<inter> R \<noteq> {})" using ex len by simp
    then have "goto_pool ts R = set ts" by (auto simp: goto_pool_def)
    with keys g show ?thesis by simp
  qed
  show "snd y = count_list ts (fst y)" if "y \<in> set g" for y
  proof -
    from that have "y \<in> set d" unfolding g_def by (simp split: if_splits)
    then show ?thesis
      using goto_addrs_of_count [of "fst y" "snd y" ts] unfolding d_def by simp
  qed
qed

text \<open>
  The targets that the operation counts: \<open>t\<close> is counted when a block of a case body
  or of the default body ends with a jump to the constant \<open>t\<close>, \<open>t\<close> is not a key of
  the cases and \<open>t\<close> is not the address of the default node.
\<close>

lemma find_gotos_iff:
  "t \<in> set (find_gotos K da stmts) \<longleftrightarrow>
     (\<exists>pre i ci b ti a. stmts = pre @ [Jump i (Const ci t b) ti a])
     \<and> t \<notin> K \<and> (\<forall>x. da = Some x \<longrightarrow> x \<noteq> Some t)"
proof (cases stmts rule: rev_cases)
  case Nil
  then show ?thesis by (simp add: find_gotos_def)
next
  case (snoc pre s)
  show ?thesis
  proof (cases s)
    case (Jump i tgt ti a)
    show ?thesis
    proof (cases tgt)
      case (Const ci v b)
      with snoc Jump show ?thesis by (cases da) (auto simp: find_gotos_def)
    qed (use snoc Jump in \<open>simp_all add: find_gotos_def\<close>)
  qed (use snoc in \<open>simp_all add: find_gotos_def\<close>)
qed

lemma goto_targets_iff:
  "t \<in> set (goto_targets cases default_node) \<longleftrightarrow>
     (\<exists>stmts \<in> set (concat (map walked_blocks
                     (map snd cases @ (case default_node of None \<Rightarrow> [] | Some d \<Rightarrow> [d])))).
        \<exists>pre i ci b ti a. stmts = pre @ [Jump i (Const ci t b) ti a])
     \<and> t \<notin> fst ` set cases
     \<and> (\<forall>d. default_node = Some d \<longrightarrow> node_addr d \<noteq> Some t)"
proof -
  have "t \<in> set (goto_targets cases default_node) \<longleftrightarrow>
        (\<exists>stmts \<in> set (concat (map walked_blocks
                     (map snd cases @ (case default_node of None \<Rightarrow> [] | Some d \<Rightarrow> [d])))).
           t \<in> set (find_gotos (fst ` set cases) (map_option node_addr default_node) stmts))"
    unfolding goto_targets_def set_concat set_map by blast
  also have "\<dots> \<longleftrightarrow>
     (\<exists>stmts \<in> set (concat (map walked_blocks
                     (map snd cases @ (case default_node of None \<Rightarrow> [] | Some d \<Rightarrow> [d])))).
        \<exists>pre i ci b ti a. stmts = pre @ [Jump i (Const ci t b) ti a])
     \<and> t \<notin> fst ` set cases
     \<and> (\<forall>d. default_node = Some d \<longrightarrow> node_addr d \<noteq> Some t)"
    unfolding find_gotos_iff by (cases default_node) auto
  finally show ?thesis .
qed

text \<open>
  What the operation returns, in terms of the targets that it counts: when no block of a case
  body or of the default body ends with a goto whose target is outside the keys of the cases
  and the address of the default node, the result is \<^verbatim>\<open>None\<close>. Otherwise the result is
  a target of such a goto that occurs at least as often as every other candidate, the
  candidates being the targets that are addresses of region nodes when there is more than one
  target and one of them is such an address, and all the targets otherwise.
\<close>

lemma switch_find_switch_end_addr_most_frequent:
  "(goto_targets cases default_node = [] \<longrightarrow>
      switch_find_switch_end_addr cases default_node region_node_addrs = Inr None)
   \<and> (goto_targets cases default_node \<noteq> [] \<longrightarrow>
      (\<exists>r. switch_find_switch_end_addr cases default_node region_node_addrs = Inr (Some r)
           \<and> r \<in> goto_pool (goto_targets cases default_node) region_node_addrs
           \<and> (\<forall>t \<in> goto_pool (goto_targets cases default_node) region_node_addrs.
                count_list (goto_targets cases default_node) t
                \<le> count_list (goto_targets cases default_node) r)))"
proof (intro conjI impI)
  assume "goto_targets cases default_node = []"
  then have "goto_addrs_of (goto_targets cases default_node) = []"
    by (simp add: goto_addrs_of_def)
  then show "switch_find_switch_end_addr cases default_node region_node_addrs = Inr None"
    unfolding switch_find_switch_end_addr_def Let_def by (simp only: simp_thms if_True)
next
  define ts where "ts = goto_targets cases default_node"
  define d where "d = goto_addrs_of ts"
  define g where "g = (if length d > 1 \<and> list_ex (\<lambda>x. fst x \<in> region_node_addrs) d
                       then filter (\<lambda>x. fst x \<in> region_node_addrs) d else d)"
  assume "goto_targets cases default_node \<noteq> []"
  then have ne: "ts \<noteq> []" by (simp add: ts_def)
  note facts = restricted_goto_addrs [OF d_def g_def ne]
  have dne: "d \<noteq> []" using ne by (simp add: d_def goto_addrs_of_empty)
  from sort_key_first [OF facts(1), of "\<lambda>x. - int (snd x)"]
  obtain x xs where x: "sort_key (\<lambda>x. - int (snd x)) g = x # xs" "x \<in> set g"
    and x_max: "\<forall>y \<in> set g. - int (snd x) \<le> - int (snd y)" by blast
  have res: "switch_find_switch_end_addr cases default_node region_node_addrs = Inr (Some (fst x))"
    unfolding switch_find_switch_end_addr_def Let_def
    unfolding ts_def [symmetric] d_def [symmetric] g_def [symmetric]
    using dne x(1) by simp
  have "fst x \<in> fst ` set g" using x(2) by (rule imageI)
  then have in_pool: "fst x \<in> goto_pool ts region_node_addrs" by (simp only: facts(2))
  have "count_list ts t \<le> count_list ts (fst x)" if "t \<in> goto_pool ts region_node_addrs" for t
  proof -
    from that facts(2) obtain y where y: "y \<in> set g" "fst y = t" by (metis imageE)
    from x_max y(1) have "snd y \<le> snd x" by simp
    with y(2) facts(3) [OF y(1)] facts(3) [OF x(2)] show ?thesis by simp
  qed
  with res in_pool
  show "\<exists>r. switch_find_switch_end_addr cases default_node region_node_addrs = Inr (Some r)
           \<and> r \<in> goto_pool (goto_targets cases default_node) region_node_addrs
           \<and> (\<forall>t \<in> goto_pool (goto_targets cases default_node) region_node_addrs.
                count_list (goto_targets cases default_node) t
                \<le> count_list (goto_targets cases default_node) r)"
    unfolding ts_def by blast
qed


lemma switch_find_switch_end_addr_most_frequent_example:
  "switch_find_switch_end_addr
     [(16, Block 16 4 [Jump None (Const None 8192 64) None 16] None),
      (32, SequenceNode (Some 32) [Block 32 4 [Jump None (Const None 8192 64) None 32] None]),
      (48, Block 48 4 [Jump None (Const None 12288 64) None 48] None :: string node)]
     (Some (Block 64 4 [Jump None (Const None 16 64) None 64] None)) {}
   = Inr (Some 8192)
   \<and> switch_find_switch_end_addr
     [(16, Block 16 4 [OtherStmt None 0 16] None :: string node)] None {} = Inr None"
  using
    switch_find_switch_end_addr_most_frequent
      [of "[(16, Block 16 4 [Jump None (Const None 8192 64) None 16] None),
            (32, SequenceNode (Some 32) [Block 32 4 [Jump None (Const None 8192 64) None 32] None]),
            (48, Block 48 4 [Jump None (Const None 12288 64) None 48] None :: string node)]"
          "Some (Block 64 4 [Jump None (Const None 16 64) None 64] None)" "{}"]
    switch_find_switch_end_addr_most_frequent
      [of "[(16, Block 16 4 [OtherStmt None 0 16] None :: string node)]" None "{}"]
  by (simp add: goto_targets_def find_gotos_def switch_find_switch_end_addr_def
        goto_addrs_of_def sort_key_def)

text \<open>
  C3. The claim says that a goto counts only when its target is outside the entry addresses
  of the cases and of the default node, and the comment in \<^verbatim>\<open>_find_gotos\<close> says the same:
  the node after the switch cannot be one of the nodes in the switch-case construct. For the
  default node the operation compares the target with the node's address; for the cases it
  tests \<^verbatim>\<open>t in cases\<close>, which is membership among the keys of the dictionary. With the
  cases keyed by case id, as \<^verbatim>\<open>_reorganize_switch_cases\<close> has them, the body of case 0
  at address 16 ends with a goto to 32, the entry address of case 1, and there is no other
  goto: the claim gives \<^verbatim>\<open>None\<close>, the operation returns 32, the address of a case node.
  The same two bodies keyed by their entry addresses give \<^verbatim>\<open>None\<close>.
\<close>

theorem switch_find_switch_end_addr_case_id_keys:
  "switch_find_switch_end_addr
     [(0, Block 16 4 [Jump None (Const None 32 64) None 16] None),
      (1, Block 32 4 [OtherStmt None 0 32] None :: string node)] None {}
   = Inr (Some 32)
   \<and> node_addr (Block 32 4 [OtherStmt None 0 32] None :: string node) = Some 32
   \<and> switch_find_switch_end_addr
     [(16, Block 16 4 [Jump None (Const None 32 64) None 16] None),
      (32, Block 32 4 [OtherStmt None 0 32] None :: string node)] None {}
   = Inr None"
  by (simp add: goto_targets_def find_gotos_def switch_find_switch_end_addr_def
        goto_addrs_of_def sort_key_def)

section \<open>Idempotence of the removal of redundant jumps\<close>

lemma fix_statements_Nil: "fix_statements k x [] = []"
  by (simp add: fix_statements_def)

lemma fix_statements_snoc:
  "fix_statements k x (bs @ [s]) = (case fix_jump k x s of None \<Rightarrow> bs | Some s' \<Rightarrow> bs @ [s'])"
  by (simp add: fix_statements_def split: option.splits)

lemma const_value_isD:
  "const_value_is t x \<Longrightarrow> \<exists>i v b. t = Some (Const i v b) \<and> Some v = x"
proof (cases t)
  case None
  assume "const_value_is t x"
  with None show ?thesis by simp
next
  case (Some e)
  assume "const_value_is t x"
  with Some show ?thesis by (cases e) auto
qed

lemma fix_statements_idem:
  assumes "single_exit_block stmts"
  shows "fix_statements k x (fix_statements k x stmts) = fix_statements k x stmts"
proof (cases stmts rule: rev_cases)
  case Nil
  then show ?thesis by (simp add: fix_statements_Nil)
next
  case (snoc bs s)
  with assms have nj: "list_all (\<lambda>s. \<not> is_Jump s \<and> \<not> is_ConditionalJump s) bs"
    and dt: "distinct_targets s"
    by (simp_all add: single_exit_block_def)
  have bs: "fix_statements k x bs = bs"
  proof (cases bs rule: rev_cases)
    case Nil
    then show ?thesis by (simp add: fix_statements_Nil)
  next
    case (snoc cs t)
    with nj have "\<not> is_Jump t" "\<not> is_ConditionalJump t" by simp_all
    then have "fix_jump k x t = Some t" by (cases t) auto
    with snoc show ?thesis by (simp add: fix_statements_snoc)
  qed
  show ?thesis
  proof (cases s)
    case (Jump i tgt ti a)
    with snoc bs show ?thesis by (simp add: fix_statements_snoc)
  next
    case (ConditionalJump i c tt ft tti fti a)
    have both: "\<not> (const_value_is tt x \<and> const_value_is ft x)"
    proof
      assume b: "const_value_is tt x \<and> const_value_is ft x"
      then obtain it t bt where tt: "tt = Some (Const it t bt)" "Some t = x"
        using const_value_isD [of tt x] by auto
      from b obtain jf f bf where ft: "ft = Some (Const jf f bf)" "Some f = x"
        using const_value_isD [of ft x] by auto
      from dt ConditionalJump tt ft show False by auto
    qed
    with snoc ConditionalJump show ?thesis by (auto simp: fix_statements_snoc)
  qed (use snoc in \<open>simp_all add: fix_statements_snoc\<close>)
qed


lemma single_exit_block_fix_statements:
  assumes "single_exit_block stmts"
  shows "single_exit_block (fix_statements k x stmts)"
proof (cases stmts rule: rev_cases)
  case Nil
  then show ?thesis by (simp add: fix_statements_Nil single_exit_block_def)
next
  case (snoc bs s)
  with assms have nj: "list_all (\<lambda>s. \<not> is_Jump s \<and> \<not> is_ConditionalJump s) bs"
    and dt: "distinct_targets s"
    by (simp_all add: single_exit_block_def)
  have bs: "single_exit_block bs"
  proof (cases bs rule: rev_cases)
    case Nil
    then show ?thesis by (simp add: single_exit_block_def)
  next
    case (snoc cs t)
    with nj have "\<not> is_ConditionalJump t" by simp
    then have "distinct_targets t" by (cases t) auto
    with snoc nj show ?thesis by (simp add: single_exit_block_def)
  qed
  have new: "single_exit_block (bs @ [s'])" if "distinct_targets s'" for s'
    using nj that by (simp add: single_exit_block_def)
  show ?thesis
  proof (cases s)
    case (Jump i tgt ti a)
    with snoc bs new [of s] show ?thesis by (simp add: fix_statements_snoc)
  next
    case (ConditionalJump i c tt ft tti fti a)
    with snoc dt new [of s]
      new [of "ConditionalJump i (UnaryOp None ''Not'' c) ft None fti None a"]
      new [of "ConditionalJump i c tt None (if k then fti else tti) None a"]
    show ?thesis by (simp add: fix_statements_snoc)
  qed (use snoc new [of s] in \<open>simp_all add: fix_statements_snoc\<close>)
qed

lemma fix_block_other: "\<not> is_Block n \<Longrightarrow> fix_block k x n = n"
  by (cases n) auto

lemma node_addr_fix_block [simp]: "node_addr (fix_block k x n) = node_addr n"
  by (cases n) auto

lemma node_addr_fix_this_node [simp]: "node_addr (fix_this_node k x n) = node_addr n"
  by (cases n) auto

lemma node_addr_remove_redundant_jumps [simp]:
  "node_addr (remove_redundant_jumps n) = node_addr n"
  by (induction n rule: remove_redundant_jumps.induct) auto

lemma is_Block_remove_redundant_jumps [simp]:
  "is_Block (remove_redundant_jumps n) = is_Block n"
  by (cases n) auto

lemma fix_block_remove_redundant_jumps:
  "fix_block k x (remove_redundant_jumps n) = remove_redundant_jumps (fix_block k x n)"
proof (cases "is_Block n")
  case True
  then show ?thesis by (cases n) auto
next
  case False
  then show ?thesis by (simp add: fix_block_other)
qed


lemma fix_nodes_Cons:
  "ns \<noteq> [] \<Longrightarrow>
   fix_nodes k (n # ns) = fix_this_node k (node_addr (hd ns)) n # fix_nodes k ns"
  by (cases ns) auto

lemma fix_nodes_snoc_last:
  "node_addr l' = node_addr l \<Longrightarrow>
   fix_nodes k (bs @ [l']) = butlast (fix_nodes k (bs @ [l])) @ [l']"
proof (induction bs)
  case Nil
  then show ?case by simp
next
  case (Cons b bs)
  have hd_eq: "node_addr (hd (bs @ [l'])) = node_addr (hd (bs @ [l]))"
    using Cons.prems by (cases bs) auto
  have ne: "fix_nodes k (bs @ [l]) \<noteq> []"
    using length_fix_nodes [of k "bs @ [l]"] by (metis length_0_conv snoc_eq_iff_butlast)
  show ?case
    using Cons.IH [OF Cons.prems] hd_eq ne
    by (simp add: fix_nodes_Cons del: fix_nodes.simps)
qed

lemma last_fix_nodes: "last (fix_nodes k (bs @ [l])) = l"
  using fix_nodes_snoc_last [of l l k bs]
  by (metis last_snoc)

lemma fix_this_node_remove_redundant_jumps:
  "fix_this_node k x (remove_redundant_jumps n) = remove_redundant_jumps (fix_this_node k x n)"
proof (cases n)
  case (Block a sz stmts i)
  then show ?thesis by simp
next
  case (MultiNode ms a i)
  show ?thesis
  proof (cases ms rule: rev_cases)
    case Nil
    with MultiNode show ?thesis by simp
  next
    case (snoc bs l)
    let ?F = "fix_nodes True (bs @ [l])"
    have F: "?F = butlast ?F @ [l]"
      using fix_nodes_snoc_last [of l l True bs] by simp
    have 1: "fix_nodes True (bs @ [fix_block k x l]) = butlast ?F @ [fix_block k x l]"
      by (rule fix_nodes_snoc_last) simp
    have Fne: "?F \<noteq> []" using F by (metis snoc_eq_iff_butlast)
    have 2: "butlast (map remove_redundant_jumps ?F) = map remove_redundant_jumps (butlast ?F)"
      by (simp add: map_butlast)
    have 3: "last (map remove_redundant_jumps ?F) = remove_redundant_jumps l"
      using Fne last_fix_nodes [of True bs l] by (simp add: last_map)
    show ?thesis
      using Fne
      by (simp add: MultiNode snoc 1 2 3 fix_block_remove_redundant_jumps
            del: fix_nodes.simps)
  qed
qed auto

lemma fix_nodes_map_remove_redundant_jumps:
  "fix_nodes k (map remove_redundant_jumps ns) = map remove_redundant_jumps (fix_nodes k ns)"
  by (induction k ns rule: fix_nodes.induct)
     (simp_all add: fix_this_node_remove_redundant_jumps)


lemma single_exit_blocks_children:
  "\<not> is_Block n \<Longrightarrow>
   single_exit_blocks n \<longleftrightarrow> (\<forall>m \<in> set (children n). single_exit_blocks m)"
  by (cases n) (auto simp: single_exit_blocks_def list_all_iff)

lemma single_exit_blocks_fix_block:
  "single_exit_blocks n \<Longrightarrow> single_exit_blocks (fix_block k x n)"
  by (cases n) (auto simp: single_exit_blocks_def single_exit_block_fix_statements)

lemma single_exit_blocks_fix_this_node:
  assumes "single_exit_blocks n"
  shows "single_exit_blocks (fix_this_node k x n)"
proof (cases n)
  case (Block a sz stmts i)
  with assms show ?thesis by (simp add: single_exit_blocks_def single_exit_block_fix_statements)
next
  case (MultiNode ms a i)
  show ?thesis
  proof (cases ms rule: rev_cases)
    case Nil
    with MultiNode assms show ?thesis by simp
  next
    case (snoc bs l)
    with MultiNode assms have "\<forall>m \<in> set (bs @ [l]). single_exit_blocks m"
      by (simp add: single_exit_blocks_children)
    then have "\<forall>m \<in> set (bs @ [fix_block k x l]). single_exit_blocks m"
      by (simp add: single_exit_blocks_fix_block)
    with MultiNode snoc show ?thesis by (simp add: single_exit_blocks_children)
  qed
qed (use assms in auto)

lemma single_exit_blocks_fix_nodes:
  "\<forall>m \<in> set ns. single_exit_blocks m \<Longrightarrow> \<forall>m \<in> set (fix_nodes k ns). single_exit_blocks m"
  by (induction k ns rule: fix_nodes.induct) (auto simp: single_exit_blocks_fix_this_node)

lemma fix_block_idem:
  "single_exit_blocks n \<Longrightarrow> fix_block k x (fix_block k x n) = fix_block k x n"
  by (cases n) (auto simp: single_exit_blocks_def fix_statements_idem)

lemma fix_this_node_idem:
  assumes "single_exit_blocks n"
  shows "fix_this_node k x (fix_this_node k x n) = fix_this_node k x n"
proof (cases n)
  case (Block a sz stmts i)
  with assms show ?thesis by (simp add: single_exit_blocks_def fix_statements_idem)
next
  case (MultiNode ms a i)
  show ?thesis
  proof (cases ms rule: rev_cases)
    case Nil
    with MultiNode show ?thesis by simp
  next
    case (snoc bs l)
    with MultiNode assms have "single_exit_blocks l"
      by (simp add: single_exit_blocks_children)
    with MultiNode snoc show ?thesis by (simp add: fix_block_idem)
  qed
qed auto

lemma fix_nodes_idem:
  "\<forall>m \<in> set ns. single_exit_blocks m \<Longrightarrow> fix_nodes k (fix_nodes k ns) = fix_nodes k ns"
proof (induction k ns rule: fix_nodes.induct)
  case (1 k n m ns)
  have "fix_nodes k (m # ns) \<noteq> []"
    using length_fix_nodes [of k "m # ns"] by (metis length_0_conv list.distinct(1))
  moreover have "node_addr (hd (fix_nodes k (m # ns))) = node_addr m"
    by (cases ns) auto
  ultimately show ?case
    using 1 by (simp add: fix_nodes_Cons fix_this_node_idem del: fix_nodes.simps)
qed auto

lemma walker_handle_default_twice:
  assumes "\<And>m. m \<in> set (children n) \<Longrightarrow> h (h m) = h m"
  shows "walker_handle_default h (walker_handle_default h n) = walker_handle_default h n"
  using assms by (cases n) (auto simp: option.map_comp comp_def intro!: map_option_cong)

text \<open>
  C6, as the claim states it, fails. When both targets of a conditional jump are the address
  of the next sibling, the first run removes the true target (and negates the condition) and
  the second run removes the target that is left.
\<close>

theorem remove_redundant_jumps_twice_counterexample:
  "remove_redundant_jumps
     (remove_redundant_jumps
        (SequenceNode (Some 0)
           [Block 0 4 [ConditionalJump None (OtherExpr None 0) (Some (Const None 4 64))
                         (Some (Const None 4 64)) None None 0] None,
            Block 4 4 [] None] :: string node))
   \<noteq> remove_redundant_jumps
       (SequenceNode (Some 0)
          [Block 0 4 [ConditionalJump None (OtherExpr None 0) (Some (Const None 4 64))
                        (Some (Const None 4 64)) None None 0] None,
           Block 4 4 [] None])"
  by (simp add: fix_statements_def)

text \<open>
  C6, amended. On every node tree in which a jump or conditional jump occurs only as the last
  statement of a block, and in which no conditional jump has the same constant as both of
  its targets, the pass is idempotent: applying it twice yields the tree obtained by applying
  it once.
\<close>

theorem remove_redundant_jumps_idempotent:
  "single_exit_blocks n \<Longrightarrow>
   remove_redundant_jumps (remove_redundant_jumps n) = remove_redundant_jumps n"
proof (induction n rule: remove_redundant_jumps.induct)
  case (1 a ns)
  then have wf: "\<forall>m \<in> set ns. single_exit_blocks m" by (simp add: single_exit_blocks_children)
  then have "\<forall>m \<in> set (fix_nodes False ns). single_exit_blocks m"
    by (rule single_exit_blocks_fix_nodes)
  with "1.IH" have "map (\<lambda>m. remove_redundant_jumps (remove_redundant_jumps m)) (fix_nodes False ns)
                    = map remove_redundant_jumps (fix_nodes False ns)"
    by (intro map_cong) auto
  then show ?case
    by (simp add: fix_nodes_map_remove_redundant_jumps fix_nodes_idem [OF wf] comp_def
          del: fix_nodes.simps)
next
  case (2 ns a i)
  then have wf: "\<forall>m \<in> set ns. single_exit_blocks m" by (simp add: single_exit_blocks_children)
  then have "\<forall>m \<in> set (fix_nodes True ns). single_exit_blocks m"
    by (rule single_exit_blocks_fix_nodes)
  with "2.IH" have "map (\<lambda>m. remove_redundant_jumps (remove_redundant_jumps m)) (fix_nodes True ns)
                    = map remove_redundant_jumps (fix_nodes True ns)"
    by (intro map_cong) auto
  then show ?case
    by (simp add: fix_nodes_map_remove_redundant_jumps fix_nodes_idem [OF wf] comp_def
          del: fix_nodes.simps)
qed (auto simp: single_exit_blocks_children option.map_comp comp_def intro!: map_option_cong)

theorem remove_redundant_jumps_idempotent_witness:
  "single_exit_blocks
     (SequenceNode (Some 0)
        [Block 0 4 [OtherStmt None 0 0,
                    ConditionalJump None (OtherExpr None 0) (Some (Const None 4 64))
                      (Some (Const None 64 64)) None None 2] None,
         MultiNode [Block 4 4 [Jump None (Const None 8 64) None 4] None, Block 8 4 [] None]
           (Some 4) None] :: string node)
   \<and> remove_redundant_jumps
       (remove_redundant_jumps
          (SequenceNode (Some 0)
             [Block 0 4 [OtherStmt None 0 0,
                         ConditionalJump None (OtherExpr None 0) (Some (Const None 4 64))
                           (Some (Const None 64 64)) None None 2] None,
              MultiNode [Block 4 4 [Jump None (Const None 8 64) None 4] None, Block 8 4 [] None]
                (Some 4) None] :: string node))
     = SequenceNode (Some 0)
         [Block 0 4 [OtherStmt None 0 0,
                     ConditionalJump None (UnaryOp None ''Not'' (OtherExpr None 0))
                       (Some (Const None 64 64)) None None None 2] None,
          MultiNode [Block 4 4 [] None, Block 8 4 [] None] (Some 4) None]"
proof -
  let ?t = "SequenceNode (Some 0)
        [Block 0 4 [OtherStmt None 0 0,
                    ConditionalJump None (OtherExpr None 0) (Some (Const None 4 64))
                      (Some (Const None 64 64)) None None 2] None,
         MultiNode [Block 4 4 [Jump None (Const None 8 64) None 4] None, Block 8 4 [] None]
           (Some 4) None] :: string node"
  have wf: "single_exit_blocks ?t"
    by (simp add: single_exit_blocks_def single_exit_block_def)
  have once: "remove_redundant_jumps ?t
     = SequenceNode (Some 0)
         [Block 0 4 [OtherStmt None 0 0,
                     ConditionalJump None (UnaryOp None ''Not'' (OtherExpr None 0))
                       (Some (Const None 64 64)) None None None 2] None,
          MultiNode [Block 4 4 [] None, Block 8 4 [] None] (Some 4) None]"
    by (simp add: fix_statements_def)
  from remove_redundant_jumps_idempotent [OF wf] wf once show ?thesis by simp
qed

section \<open>Nested loops and switches are left alone\<close>

lemma concat_map_concat_map:
  "concat (map f (concat (map g ns))) = concat (map (\<lambda>n. concat (map f (g n))) ns)"
  by (induction ns) auto

lemma nested_loops_default:
  assumes "\<not> is_LoopNode n"
    and "\<And>m. m \<in> set (children n) \<Longrightarrow> nested_loops (h m) = nested_loops m"
  shows "nested_loops (walker_handle_default h n) = nested_loops n"
proof -
  have "nested_loops (walker_handle_default h n)
        = concat (map (\<lambda>m. nested_loops (h m)) (children n))"
    using assms(1) by (cases n) (auto split: option.splits simp: comp_def)
  also have "\<dots> = concat (map nested_loops (children n))"
    using assms(2) by (simp cong: map_cong)
  also have "\<dots> = nested_loops n" using assms(1) by (cases n) auto
  finally show ?thesis .
qed

lemma nested_loops_in_slot: "nested_loops (in_slot ns) = concat (map nested_loops ns)"
  by (cases ns rule: in_slot.cases) auto

lemma nested_loops_continue_nodes:
  "continue_nodes cp ca s = Some inserted \<Longrightarrow> concat (map nested_loops inserted) = []"
  by (cases "(cp, ca, s)" rule: continue_nodes.cases)
     (auto simp: continue_after_condition_def split: if_splits option.splits)

lemma nested_loops_rewrite_jump_to_continue:
  "concat (map nested_loops (rewrite_jump_to_continue cp ca a sz stmts i)) = []"
  using nested_loops_continue_nodes [of cp ca "last stmts"]
  by (auto simp: rewrite_jump_to_continue_def split: option.splits)

lemma rewrite_jumps_walk_default:
  "\<not> is_Block n \<Longrightarrow> \<not> is_container n \<Longrightarrow> \<not> is_LoopNode n \<Longrightarrow>
   rewrite_jumps_walk cp ca n
   = [walker_handle_default (\<lambda>m. in_slot (rewrite_jumps_walk cp ca m)) n]"
  by (cases n) auto

lemma nested_loops_rewrite_jumps_walk:
  "concat (map nested_loops (rewrite_jumps_walk cp ca n)) = nested_loops n"
proof (induction n rule: measure_induct_rule [where f = size])
  case (less n)
  have IH: "concat (map nested_loops (rewrite_jumps_walk cp ca m)) = nested_loops m"
    if "m \<in> set (children n)" for m
    using less [of m] children_size [OF that] by simp
  show ?case
  proof (cases "is_Block n \<or> is_container n \<or> is_LoopNode n")
    case True
    then show ?thesis
    proof (cases n)
      case (Block a sz stmts i)
      then show ?thesis
        using nested_loops_rewrite_jump_to_continue [of cp ca a sz stmts i] by simp
    next
      case (SequenceNode a ns)
      with IH show ?thesis by (simp add: concat_map_concat_map cong: map_cong)
    next
      case (MultiNode ns a i)
      with IH show ?thesis by (simp add: concat_map_concat_map cong: map_cong)
    qed auto
  next
    case False
    then show ?thesis
      using IH by (simp add: rewrite_jumps_walk_default nested_loops_default nested_loops_in_slot)
  qed
qed

lemma remove_continue_default:
  "\<not> is_container n \<Longrightarrow> \<not> is_LoopNode n \<Longrightarrow> \<not> is_SwitchCaseNode n \<Longrightarrow>
   remove_continue_node_at_loop_body_ends n
   = walker_handle_default remove_continue_node_at_loop_body_ends n"
  by (cases n) auto

lemma nested_loops_ContinueNode: "is_ContinueNode n \<Longrightarrow> nested_loops n = []"
  by (cases n) auto

lemma nested_loops_remove_continue:
  "nested_loops (remove_continue_node_at_loop_body_ends n) = nested_loops n"
proof (induction n rule: measure_induct_rule [where f = size])
  case (less n)
  have IH: "nested_loops (remove_continue_node_at_loop_body_ends m) = nested_loops m"
    if "m \<in> set (children n)" for m
    using less [of m] children_size [OF that] by simp
  have lists: "concat (map nested_loops
                 (if ns = [] then ns
                  else if is_ContinueNode (last ns) then butlast ns
                  else butlast ns @ [remove_continue_node_at_loop_body_ends (last ns)]))
               = concat (map nested_loops ns)"
    if "set ns \<subseteq> set (children n)" for ns
  proof (cases ns rule: rev_cases)
    case Nil
    then show ?thesis by simp
  next
    case (snoc bs l)
    with that IH [of l] show ?thesis by (simp add: nested_loops_ContinueNode)
  qed
  show ?case
  proof (cases "is_container n \<or> is_LoopNode n \<or> is_SwitchCaseNode n")
    case True
    then show ?thesis
    proof (cases n)
      case (SequenceNode a ns)
      then show ?thesis using lists [of ns] by (simp split: if_splits)
    next
      case (MultiNode ns a i)
      then show ?thesis using lists [of ns] by (simp split: if_splits)
    qed auto
  next
    case False
    then show ?thesis
      using IH by (simp add: remove_continue_default nested_loops_default)
  qed
qed

lemma nested_loops_rewrite_jumps_to_continues:
  "rewrite_jumps_to_continues cp loop_seq loop_node = Inr t \<Longrightarrow>
   nested_loops t = nested_loops loop_seq"
  by (cases loop_seq)
     (auto simp: nested_loops_remove_continue nested_loops_in_slot
        nested_loops_rewrite_jumps_walk simp del: rewrite_jumps_walk.simps nested_loops.simps
        remove_continue_node_at_loop_body_ends.simps)

lemma collect_Cons_Inr:
  "collect (r # rs) = Inr ys \<Longrightarrow> \<exists>x xs. r = Inr x \<and> collect rs = Inr xs \<and> ys = x # xs"
proof (cases r)
  case (Inl e)
  assume "collect (r # rs) = Inr ys"
  with Inl show ?thesis by simp
next
  case (Inr x)
  assume a: "collect (r # rs) = Inr ys"
  show ?thesis
  proof (cases "collect rs")
    case (Inl e)
    with a Inr show ?thesis by simp
  next
    case (Inr xs)
    with a \<open>r = Inr x\<close> show ?thesis by simp
  qed
qed

lemma collect_transfer:
  assumes "collect (map g xs) = Inr ys"
    and "\<And>x y. x \<in> set xs \<Longrightarrow> g x = Inr y \<Longrightarrow> G y = H x"
  shows "map G ys = map H xs"
  using assms
proof (induction xs arbitrary: ys)
  case Nil
  then show ?case by simp
next
  case (Cons x xs)
  from Cons.prems(1) have "collect (g x # map g xs) = Inr ys" by simp
  from collect_Cons_Inr [OF this]
  obtain y ys' where y: "g x = Inr y" "collect (map g xs) = Inr ys'" "ys = y # ys'" by blast
  have "map G ys' = map H xs"
    by (rule Cons.IH [OF y(2)]) (rule Cons.prems(2), simp_all)
  moreover have "G y = H x" by (rule Cons.prems(2) [OF _ y(1)]) simp
  ultimately show ?case using y(3) by simp
qed


lemma collect_option_Inr:
  "collect_option (map_option h t) = Inr t' \<Longrightarrow>
   (t = None \<and> t' = None) \<or> (\<exists>m m'. t = Some m \<and> h m = Inr m' \<and> t' = Some m')"
proof (cases t)
  case None
  assume "collect_option (map_option h t) = Inr t'"
  with None show ?thesis by simp
next
  case (Some m)
  assume a: "collect_option (map_option h t) = Inr t'"
  show ?thesis
  proof (cases "h m")
    case (Inl e)
    with a Some show ?thesis by simp
  next
    case (Inr m')
    with a Some show ?thesis by simp
  qed
qed

lemma with_key_Inr: "with_key k r = Inr y \<Longrightarrow> \<exists>m'. r = Inr m' \<and> y = (k, m')"
  by (cases r) simp_all

lemma concat_map_concat:
  "concat (map f (concat xss)) = concat (map (\<lambda>xs. concat (map f xs)) xss)"
  by (induction xss) simp_all

lemma map_snd_with_next_addr: "map snd (with_next_addr ns) = ns"
  by (induction ns rule: with_next_addr.induct) simp_all

lemma frozen_break_node:
  "loop_create_break_node cp s succs = Inr (Some bn) \<Longrightarrow> nested_loops_and_switches bn = []"
proof (cases s)
  case (Jump i tgt ti a)
  assume "loop_create_break_node cp s succs = Inr (Some bn)"
  with Jump show ?thesis by (cases "expr_value tgt") auto
next
  case (ConditionalJump i c tt ft tti fti a)
  assume a: "loop_create_break_node cp s succs = Inr (Some bn)"
  show ?thesis
  proof (cases "target_value tt")
    case (Inl e)
    with a ConditionalJump show ?thesis by simp
  next
    case tv: (Inr tv)
    show ?thesis
    proof (cases "target_value ft")
      case (Inl e)
      with a ConditionalJump tv show ?thesis by simp
    next
      case (Inr fv)
      with a ConditionalJump tv show ?thesis by (auto split: if_splits)
    qed
  qed
qed simp_all

lemma frozen_sub_block: "nested_loops_and_switches (sub_block sub e i) = []"
  by (simp add: sub_block_def)

lemma frozen_break_loop:
  "break_loop cp succs x stmts i rest stmt_idx new_nodes last_nonjump = Inr (new_nodes', l') \<Longrightarrow>
   concat (map nested_loops_and_switches new_nodes) = [] \<Longrightarrow>
   concat (map nested_loops_and_switches new_nodes') = []"
proof (induction cp succs x stmts i rest stmt_idx new_nodes last_nonjump
    rule: break_loop.induct)
  case (1 cp succs x stmts i stmt_idx new_nodes last_nonjump)
  then show ?case by simp
next
  case (2 cp succs x stmts i stmt rest stmt_idx new_nodes last_nonjump)
  show ?case
  proof (cases "\<not> (is_ConditionalJump stmt \<or> is_Jump stmt)")
    case True
    with "2.prems" "2.IH"(1) show ?thesis by simp
  next
    case nj: False
    show ?thesis
    proof (cases "jumps_to_next stmt x")
      case True
      with nj "2.prems" "2.IH"(2) show ?thesis by simp
    next
      case nn: False
      show ?thesis
      proof (cases "list_ex (\<lambda>t. t \<in> succs) (extract_jump_targets stmt)")
        case False
        with nj nn "2.prems" "2.IH"(5) show ?thesis by simp
      next
        case ex: True
        show ?thesis
        proof (cases "loop_create_break_node cp stmt succs")
          case (Inl e)
          with nj nn ex "2.prems" show ?thesis by simp
        next
          case (Inr r)
          show ?thesis
          proof (cases r)
            case None
            with Inr nj nn ex "2.prems" "2.IH"(3) show ?thesis by simp
          next
            case (Some bn)
            have b: "nested_loops_and_switches bn = []"
              using Inr Some frozen_break_node by blast
            with Some Inr nj nn ex "2.prems" "2.IH"(4) [OF nj nn ex Inr Some]
            show ?thesis by (simp add: frozen_sub_block)
          qed
        qed
      qed
    qed
  qed
qed


lemma frozen_rewrite_conditional_jump_to_break:
  assumes "rewrite_conditional_jump_to_break cp succs x a sz stmts i = Inr ms"
  shows "concat (map nested_loops_and_switches ms) = []"
proof (cases "stmts = []")
  case True
  with assms show ?thesis by (auto simp: rewrite_conditional_jump_to_break_def)
next
  case False
  show ?thesis
  proof (cases "break_loop cp succs x stmts i stmts 0 [] 0")
    case (Inl e)
    with assms False show ?thesis by (simp add: rewrite_conditional_jump_to_break_def)
  next
    case (Inr r)
    obtain new_nodes l where r: "r = (new_nodes, l)" by (cases r)
    have "concat (map nested_loops_and_switches new_nodes) = []"
      using frozen_break_loop [of cp succs x stmts i stmts 0 "[]" 0 new_nodes l] Inr r by simp
    with assms False Inr r show ?thesis
      by (auto simp: rewrite_conditional_jump_to_break_def frozen_sub_block split: if_splits)
  qed
qed

lemma frozen_in_slot:
  "nested_loops_and_switches (in_slot ns) = concat (map nested_loops_and_switches ns)"
  by (cases ns rule: in_slot.cases) simp_all

lemma frozen_via_children:
  "\<not> is_LoopNode n \<Longrightarrow> \<not> is_SwitchCaseNode n \<Longrightarrow>
   nested_loops_and_switches n = concat (map nested_loops_and_switches (children n))"
  by (cases n) simp_all

lemma option_children:
  "concat (map G (case t of None \<Rightarrow> [] | Some m \<Rightarrow> [m])) = (case t of None \<Rightarrow> [] | Some m \<Rightarrow> G m)"
  by (cases t) simp_all

lemma collect_option_frozen:
  assumes "collect_option (map_option h t) = Inr t'"
    and "\<And>m m'. t = Some m \<Longrightarrow> h m = Inr m' \<Longrightarrow> G m' = G m"
  shows "(case t' of None \<Rightarrow> [] | Some m \<Rightarrow> G m) = (case t of None \<Rightarrow> [] | Some m \<Rightarrow> G m)"
proof -
  from collect_option_Inr [OF assms(1)]
  consider "t = None" "t' = None" | m m' where "t = Some m" "h m = Inr m'" "t' = Some m'"
    by blast
  then show ?thesis
  proof cases
    case 1
    then show ?thesis by simp
  next
    case 2
    with assms(2) [of m m'] show ?thesis by simp
  qed
qed



lemma fdr_list:
  assumes "collect (map h ns) = Inr ms"
    and "\<And>m m'. m \<in> set ns \<Longrightarrow> h m = Inr m' \<Longrightarrow>
           nested_loops_and_switches m' = nested_loops_and_switches m"
  shows "map nested_loops_and_switches ms = map nested_loops_and_switches ns"
  using collect_transfer [of h ns ms nested_loops_and_switches nested_loops_and_switches,
      OF assms(1)] assms(2) by blast


lemma fdr_pairs:
  assumes "collect (map (\<lambda>cn. with_key (fst cn) (h (snd cn))) cns) = Inr cns'"
    and "\<And>m m'. m \<in> snd ` set cns \<Longrightarrow> h m = Inr m' \<Longrightarrow>
           nested_loops_and_switches m' = nested_loops_and_switches m"
  shows "map (\<lambda>cn. nested_loops_and_switches (snd cn)) cns'
        = map (\<lambda>cn. nested_loops_and_switches (snd cn)) cns"
proof -
  have "nested_loops_and_switches (snd y) = nested_loops_and_switches (snd x)"
    if x: "x \<in> set cns" and y: "with_key (fst x) (h (snd x)) = Inr y" for x y
  proof -
    from with_key_Inr [OF y] obtain m' where m': "h (snd x) = Inr m'" "y = (fst x, m')"
      by blast
    from x have "snd x \<in> snd ` set cns" by (rule imageI)
    from assms(2) [OF this m'(1)] m'(2) show ?thesis by simp
  qed
  with collect_transfer [of "\<lambda>cn. with_key (fst cn) (h (snd cn))" cns cns'
      "\<lambda>cn. nested_loops_and_switches (snd cn)" "\<lambda>cn. nested_loops_and_switches (snd cn)",
      OF assms(1)]
  show ?thesis by blast
qed

lemma fdr_option:
  assumes "collect_option (map_option h t) = Inr t'"
    and "\<And>m m'. t = Some m \<Longrightarrow> h m = Inr m' \<Longrightarrow>
           nested_loops_and_switches m' = nested_loops_and_switches m"
  shows "(case t' of None \<Rightarrow> [] | Some m \<Rightarrow> nested_loops_and_switches m)
         = (case t of None \<Rightarrow> [] | Some m \<Rightarrow> nested_loops_and_switches m)"
  using collect_option_frozen [of h t t' nested_loops_and_switches, OF assms(1)] assms(2)
  by blast

lemma frozen_default_raising:
  fixes n :: "'c node"
  assumes "\<not> is_LoopNode n" and "\<not> is_SwitchCaseNode n"
    and "walker_handle_default_raising h n = Inr n'"
    and "\<And>m m'. m \<in> set (children n) \<Longrightarrow> h m = Inr m' \<Longrightarrow>
           nested_loops_and_switches m' = nested_loops_and_switches m"
  shows "nested_loops_and_switches n' = nested_loops_and_switches n"
proof (cases n)
  case (Block a sz stmts i)
  with assms(3) show ?thesis by simp
next
  case (MultiNode ns a i)
  with assms(3) obtain ms where ms: "collect (map h ns) = Inr ms" "n' = MultiNode ms a i"
    by (cases "collect (map h ns)") simp_all
  have "map nested_loops_and_switches ms = map nested_loops_and_switches ns"
    using fdr_list [OF ms(1)] assms(4) MultiNode by simp
  with ms MultiNode show ?thesis by simp
next
  case (SequenceNode a ns)
  with assms(3) obtain ms where ms: "collect (map h ns) = Inr ms" "n' = SequenceNode a ms"
    by (cases "collect (map h ns)") simp_all
  have "map nested_loops_and_switches ms = map nested_loops_and_switches ns"
    using fdr_list [OF ms(1)] assms(4) SequenceNode by simp
  with ms SequenceNode show ?thesis by simp
next
  case (CodeNode m rc)
  with assms(3) obtain m' where m': "h m = Inr m'" "n' = CodeNode m' rc"
    by (cases "h m") simp_all
  have "nested_loops_and_switches m' = nested_loops_and_switches m"
    using assms(4) [of m m'] m'(1) CodeNode by simp
  with m' CodeNode show ?thesis by simp
next
  case (ConditionNode a rc c t f)
  from assms(3) ConditionNode obtain t' where t': "collect_option (map_option h t) = Inr t'"
    by (cases "collect_option (map_option h t)") simp_all
  from assms(3) ConditionNode t' obtain f' where f': "collect_option (map_option h f) = Inr f'"
    by (cases "collect_option (map_option h f)") simp_all
  from assms(3) ConditionNode t' f' have n': "n' = ConditionNode a rc c t' f'" by simp
  have 1: "(case t' of None \<Rightarrow> [] | Some m \<Rightarrow> nested_loops_and_switches m)
        = (case t of None \<Rightarrow> [] | Some m \<Rightarrow> nested_loops_and_switches m)"
    using fdr_option [OF t'] assms(4) ConditionNode by simp
  have 2: "(case f' of None \<Rightarrow> [] | Some m \<Rightarrow> nested_loops_and_switches m)
        = (case f of None \<Rightarrow> [] | Some m \<Rightarrow> nested_loops_and_switches m)"
    using fdr_option [OF f'] assms(4) ConditionNode by simp
  show ?thesis unfolding n' ConditionNode by (simp add: option_children 1 2)
next
  case (CascadingConditionNode a cns e)
  let ?g = "\<lambda>cn. with_key (fst cn) (h (snd cn))"
  from assms(3) CascadingConditionNode obtain cns' where
    cns': "collect (map ?g cns) = Inr cns'"
    by (cases "collect (map ?g cns)") simp_all
  from assms(3) CascadingConditionNode cns' obtain e' where
    e': "collect_option (map_option h e) = Inr e'"
    by (cases "collect_option (map_option h e)") simp_all
  from assms(3) CascadingConditionNode cns' e' have n': "n' = CascadingConditionNode a cns' e'"
    by simp
  have 1: "map (\<lambda>cn. nested_loops_and_switches (snd cn)) cns'
        = map (\<lambda>cn. nested_loops_and_switches (snd cn)) cns"
    using fdr_pairs [OF cns'] assms(4) CascadingConditionNode by simp
  have 2: "(case e' of None \<Rightarrow> [] | Some m \<Rightarrow> nested_loops_and_switches m)
        = (case e of None \<Rightarrow> [] | Some m \<Rightarrow> nested_loops_and_switches m)"
    using fdr_option [OF e'] assms(4) CascadingConditionNode by simp
  show ?thesis
    unfolding n' CascadingConditionNode by (simp add: option_children 1 2 comp_def)
next
  case (LoopNode s c b a)
  with assms(1) show ?thesis by simp
next
  case (SwitchCaseNode e cs d a)
  with assms(2) show ?thesis by simp
next
  case (BreakNode a t)
  with assms(3) show ?thesis by simp
next
  case (ConditionalBreakNode a c t)
  with assms(3) show ?thesis by simp
next
  case (ContinueNode a t)
  with assms(3) show ?thesis by simp
qed


lemma rewrite_breaks_walk_default:
  "\<not> is_Block n \<Longrightarrow> \<not> is_container n \<Longrightarrow> \<not> is_LoopNode n \<Longrightarrow> \<not> is_SwitchCaseNode n \<Longrightarrow>
   rewrite_breaks_walk cp succs x n
   = (case walker_handle_default_raising
             (\<lambda>m. in_slot_raising (rewrite_breaks_walk cp succs None m)) n of
        Inl e \<Rightarrow> Inl e
      | Inr n' \<Rightarrow> Inr [n'])"
  by (cases n) simp_all

lemma in_slot_raising_Inr: "in_slot_raising r = Inr m \<Longrightarrow> \<exists>ms. r = Inr ms \<and> m = in_slot ms"
  by (cases r) simp_all

lemma concat_raising_Inr: "concat_raising r = Inr ms \<Longrightarrow> \<exists>mss. r = Inr mss \<and> ms = concat mss"
  by (cases r) simp_all

lemma frozen_walked_list:
  assumes "collect (map g xs) = Inr mss"
    and "\<And>x ms. x \<in> set xs \<Longrightarrow> g x = Inr ms \<Longrightarrow>
           concat (map nested_loops_and_switches ms) = nested_loops_and_switches (snd x)"
  shows "concat (map nested_loops_and_switches (concat mss))
         = concat (map nested_loops_and_switches (map snd xs))"
proof -
  have "map (\<lambda>ms. concat (map nested_loops_and_switches ms)) mss
        = map (\<lambda>x. nested_loops_and_switches (snd x)) xs"
    using collect_transfer [of g xs mss "\<lambda>ms. concat (map nested_loops_and_switches ms)"
        "\<lambda>x. nested_loops_and_switches (snd x)", OF assms(1)] assms(2) by blast
  then show ?thesis by (simp add: concat_map_concat comp_def)
qed

lemma frozen_rewrite_breaks_walk:
  "rewrite_breaks_walk cp succs x n = Inr ms \<Longrightarrow>
   concat (map nested_loops_and_switches ms) = nested_loops_and_switches n"
proof (induction n arbitrary: x ms rule: measure_induct_rule [where f = size])
  case (less n)
  have IH: "concat (map nested_loops_and_switches ms') = nested_loops_and_switches m"
    if "m \<in> set (children n)" and "rewrite_breaks_walk cp succs x' m = Inr ms'" for m x' ms'
    using less.IH [of m x' ms'] children_size [OF that(1)] that(2) by simp
  show ?case
  proof (cases "is_Block n \<or> is_container n \<or> is_LoopNode n \<or> is_SwitchCaseNode n")
    case True
    then show ?thesis
    proof (cases n)
      case (Block a sz stmts i)
      with less.prems frozen_rewrite_conditional_jump_to_break [of cp succs x a sz stmts i ms]
      show ?thesis by simp
    next
      case (SequenceNode a ns)
      let ?g = "\<lambda>xn. rewrite_breaks_walk cp succs (fst xn) (snd xn)"
      from less.prems SequenceNode
      obtain cs where cs: "concat_raising (collect (map ?g (with_next_addr ns))) = Inr cs"
        "ms = [SequenceNode a cs]"
        by (cases "concat_raising (collect (map ?g (with_next_addr ns)))") simp_all
      from concat_raising_Inr [OF cs(1)]
      obtain mss where mss: "collect (map ?g (with_next_addr ns)) = Inr mss" "cs = concat mss"
        by blast
      have "concat (map nested_loops_and_switches (concat mss))
            = concat (map nested_loops_and_switches (map snd (with_next_addr ns)))"
      proof (rule frozen_walked_list [OF mss(1)])
        fix xn ms' assume xn: "xn \<in> set (with_next_addr ns)" and g: "?g xn = Inr ms'"
        from xn have "snd xn \<in> set (map snd (with_next_addr ns))" by simp
        then have "snd xn \<in> set (children n)"
          by (simp only: map_snd_with_next_addr SequenceNode children.simps)
        from IH [OF this g]
        show "concat (map nested_loops_and_switches ms') = nested_loops_and_switches (snd xn)" .
      qed
      with cs mss SequenceNode show ?thesis by (simp add: map_snd_with_next_addr)
    next
      case (MultiNode ns a i)
      let ?g = "\<lambda>xn. rewrite_breaks_walk cp succs None (snd xn)"
      let ?xs = "map (\<lambda>m. (None :: int option, m)) ns"
      have mp: "map (rewrite_breaks_walk cp succs None) ns = map ?g ?xs" by simp
      from less.prems MultiNode
      obtain cs where cs: "concat_raising (collect (map ?g ?xs)) = Inr cs"
        "ms = [MultiNode cs a i]"
        unfolding mp [symmetric]
        by (cases "concat_raising (collect (map (rewrite_breaks_walk cp succs None) ns))")
           simp_all
      from concat_raising_Inr [OF cs(1)]
      obtain mss where mss: "collect (map ?g ?xs) = Inr mss" "cs = concat mss"
        by blast
      have "concat (map nested_loops_and_switches (concat mss))
            = concat (map nested_loops_and_switches (map snd ?xs))"
      proof (rule frozen_walked_list [OF mss(1)])
        fix xn ms' assume xn: "xn \<in> set ?xs" and g: "?g xn = Inr ms'"
        from xn have "snd xn \<in> set (children n)" using MultiNode by auto
        from IH [OF this g]
        show "concat (map nested_loops_and_switches ms') = nested_loops_and_switches (snd xn)" .
      qed
      with cs mss MultiNode show ?thesis by (simp add: comp_def)
    next
      case (LoopNode s c b a)
      with less.prems show ?thesis by auto
    next
      case (SwitchCaseNode e cs d a)
      with less.prems show ?thesis by auto
    qed simp_all
  next
    case False
    let ?h = "\<lambda>m. in_slot_raising (rewrite_breaks_walk cp succs None m)"
    from False less.prems obtain n' where n': "walker_handle_default_raising ?h n = Inr n'"
      "ms = [n']"
      by (cases "walker_handle_default_raising ?h n")
         (simp_all add: rewrite_breaks_walk_default)
    have "nested_loops_and_switches m' = nested_loops_and_switches m"
      if m: "m \<in> set (children n)" and h: "?h m = Inr m'" for m m'
    proof -
      from in_slot_raising_Inr [OF h]
      obtain ms' where ms': "rewrite_breaks_walk cp succs None m = Inr ms'" "m' = in_slot ms'"
        by blast
      from IH [OF m ms'(1)] ms'(2) show ?thesis by (simp add: frozen_in_slot)
    qed
    with frozen_default_raising [of n ?h n'] False n'(1)
    have "nested_loops_and_switches n' = nested_loops_and_switches n" by blast
    with n'(2) show ?thesis by simp
  qed
qed

lemma frozen_rewrite_conditional_jumps_to_breaks:
  assumes "rewrite_conditional_jumps_to_breaks cp loop_node succs = Inr t"
  shows "nested_loops_and_switches t = nested_loops_and_switches loop_node"
proof -
  have nb: "\<not> is_Block loop_node" using assms by (cases loop_node) auto
  then have "rewrite_conditional_jumps_to_breaks cp loop_node succs
             = in_slot_raising (rewrite_breaks_walk cp succs None loop_node)"
    by (cases loop_node) simp_all
  with assms in_slot_raising_Inr
  obtain ms where ms: "rewrite_breaks_walk cp succs None loop_node = Inr ms" "t = in_slot ms"
    by metis
  from frozen_rewrite_breaks_walk [OF ms(1)] ms(2) show ?thesis by (simp add: frozen_in_slot)
qed

lemma frozen_default:
  assumes "\<not> is_LoopNode n" and "\<not> is_SwitchCaseNode n"
    and "\<And>m. m \<in> set (children n) \<Longrightarrow> nested_loops_and_switches (h m) = nested_loops_and_switches m"
  shows "nested_loops_and_switches (walker_handle_default h n) = nested_loops_and_switches n"
proof -
  have "nested_loops_and_switches (walker_handle_default h n)
        = concat (map (\<lambda>m. nested_loops_and_switches (h m)) (children n))"
    using assms(1,2) by (cases n) (auto split: option.splits simp: comp_def)
  also have "\<dots> = concat (map nested_loops_and_switches (children n))"
    using assms(3) by (simp cong: map_cong)
  also have "\<dots> = nested_loops_and_switches n" using assms(1,2) by (cases n) auto
  finally show ?thesis .
qed

lemma frozen_ContinueNode: "is_ContinueNode n \<Longrightarrow> nested_loops_and_switches n = []"
  by (cases n) auto

lemma frozen_remove_continue:
  "nested_loops_and_switches (remove_continue_node_at_loop_body_ends n)
   = nested_loops_and_switches n"
proof (induction n rule: measure_induct_rule [where f = size])
  case (less n)
  have IH: "nested_loops_and_switches (remove_continue_node_at_loop_body_ends m)
            = nested_loops_and_switches m"
    if "m \<in> set (children n)" for m
    using less [of m] children_size [OF that] by simp
  have lists: "concat (map nested_loops_and_switches
                 (if ns = [] then ns
                  else if is_ContinueNode (last ns) then butlast ns
                  else butlast ns @ [remove_continue_node_at_loop_body_ends (last ns)]))
               = concat (map nested_loops_and_switches ns)"
    if "set ns \<subseteq> set (children n)" for ns
  proof (cases ns rule: rev_cases)
    case Nil
    then show ?thesis by simp
  next
    case (snoc bs l)
    with that IH [of l] show ?thesis by (simp add: frozen_ContinueNode)
  qed
  show ?case
  proof (cases "is_container n \<or> is_LoopNode n \<or> is_SwitchCaseNode n")
    case True
    then show ?thesis
    proof (cases n)
      case (SequenceNode a ns)
      then show ?thesis using lists [of ns] by (simp split: if_splits)
    next
      case (MultiNode ns a i)
      then show ?thesis using lists [of ns] by (simp split: if_splits)
    qed auto
  next
    case False
    then show ?thesis
      using IH by (simp add: remove_continue_default frozen_default)
  qed
qed

text \<open>
  C10. The passes that rewrite jumps to breaks and to continues leave the nested loops alone:
  the loops of the tree that are not inside another loop are, after the pass that rewrites
  jumps to continues, the same loops in the same places, whatever their blocks jump to; and
  so are the loops and the switches after the pass that rewrites jumps to breaks and after
  the removal of the continue at the end of a loop body.
\<close>

theorem nested_loops_and_switches_unchanged:
  "(rewrite_jumps_to_continues cp loop_seq loop_node = Inr t
      \<longrightarrow> nested_loops t = nested_loops loop_seq)
   \<and> (rewrite_conditional_jumps_to_breaks cp body succs = Inr t'
      \<longrightarrow> nested_loops_and_switches t' = nested_loops_and_switches body)
   \<and> nested_loops_and_switches (remove_continue_node_at_loop_body_ends n)
     = nested_loops_and_switches n"
  using nested_loops_rewrite_jumps_to_continues [of cp loop_seq loop_node t]
    frozen_rewrite_conditional_jumps_to_breaks [of cp body succs t']
    frozen_remove_continue [of n]
  by blast

theorem nested_loops_and_switches_unchanged_witness:
  "rewrite_jumps_to_continues example_cp
     (SequenceNode (Some 0)
        [Block 0 4 [Jump None (Const None 0 64) None 0] None,
         LoopNode While None
           (SequenceNode (Some 8)
              [Block 8 4 [Jump None (Const None 0 64) None 8] None,
               Block 12 4 [Jump None (Const None 100 64) None 12] None])
           (Some 8)])
     None
   = Inr (SequenceNode (Some 0)
        [Block 0 4 [] None,
         ContinueNode (Some 0) 0,
         LoopNode While None
           (SequenceNode (Some 8)
              [Block 8 4 [Jump None (Const None 0 64) None 8] None,
               Block 12 4 [Jump None (Const None 100 64) None 12] None])
           (Some 8)])
   \<and> rewrite_conditional_jumps_to_breaks example_cp
     (SequenceNode (Some 0)
        [Block 0 4 [Jump None (Const None 100 64) None 0] None,
         LoopNode While None
           (SequenceNode (Some 8)
              [Block 8 4 [Jump None (Const None 0 64) None 8] None,
               Block 12 4 [Jump None (Const None 100 64) None 12] None])
           (Some 8)])
     {100}
   = Inr (SequenceNode (Some 0)
        [Block 0 4 [] None,
         BreakNode (Some 0) 100,
         LoopNode While None
           (SequenceNode (Some 8)
              [Block 8 4 [Jump None (Const None 0 64) None 8] None,
               Block 12 4 [Jump None (Const None 100 64) None 12] None])
           (Some 8)])"
proof -
  let ?loop = "LoopNode While None
           (SequenceNode (Some 8)
              [Block 8 4 [Jump None (Const None 0 64) None 8] None,
               Block 12 4 [Jump None (Const None 100 64) None 12] None])
           (Some 8) :: string node"
  let ?b1 = "SequenceNode (Some 0) [Block 0 4 [Jump None (Const None 0 64) None 0] None, ?loop]"
  let ?b2 = "SequenceNode (Some 0) [Block 0 4 [Jump None (Const None 100 64) None 0] None, ?loop]"
  have 1: "rewrite_jumps_to_continues example_cp ?b1 None
           = Inr (SequenceNode (Some 0) [Block 0 4 [] None, ContinueNode (Some 0) 0, ?loop])"
    by (simp add: rewrite_jump_to_continue_def)
  have 2: "rewrite_conditional_jumps_to_breaks example_cp ?b2 {100}
           = Inr (SequenceNode (Some 0) [Block 0 4 [] None, BreakNode (Some 0) 100, ?loop])"
    by (simp add: rewrite_conditional_jump_to_break_def)
  from nested_loops_and_switches_unchanged
         [of example_cp ?b1 None "SequenceNode (Some 0) [Block 0 4 [] None, ContinueNode (Some 0) 0, ?loop]"
             ?b2 "{100}" "SequenceNode (Some 0) [Block 0 4 [] None, BreakNode (Some 0) 100, ?loop]"
             ?b1] 1 2
  show ?thesis by simp
qed

section \<open>Continue nodes after the rewriting of jumps\<close>

lemma rewrite_jump_to_continue_jump:
  "rewrite_jump_to_continue cp (Some v) a sz (stmts @ [Jump i (Const ci v cb) ti ia]) idx
   = [Block a sz stmts idx, ContinueNode (Some ia) v]"
  by (simp add: rewrite_jump_to_continue_def)

lemma rewrite_jumps_walk_single:
  "\<not> is_Block n \<Longrightarrow> \<exists>n'. rewrite_jumps_walk cp ca n = [n']"
  by (cases n) auto

lemma container_lists_in_list:
  "m \<in> set ns \<Longrightarrow> l \<in> set (container_lists m) \<Longrightarrow>
   l \<in> set (concat (map container_lists ns))"
  by auto

lemma blocks_outside_loops_children:
  "\<not> is_Block n \<Longrightarrow> b \<in> set (blocks_outside_loops n) \<Longrightarrow>
   \<exists>m \<in> set (children n). b \<in> set (blocks_outside_loops m)"
  by (cases n) auto

lemma container_lists_default:
  "\<not> is_container n \<Longrightarrow> \<not> is_LoopNode n \<Longrightarrow>
   container_lists (walker_handle_default h n) = concat (map (\<lambda>m. container_lists (h m)) (children n))"
  by (cases n) (auto split: option.splits simp: comp_def)


lemma continue_inserted:
  assumes "\<not> is_Block n"
    and "Block a sz (stmts @ [Jump i (Const ci v cb) ti ia]) idx \<in> set (blocks_outside_loops n)"
  shows "\<exists>l \<in> set (container_lists (in_slot (rewrite_jumps_walk cp (Some v) n))).
           \<exists>pre post. l = pre @ Block a sz stmts idx # ContinueNode (Some ia) v # post"
  using assms
proof (induction n rule: measure_induct_rule [where f = size])
  case (less n)
  let ?B = "Block a sz (stmts @ [Jump i (Const ci v cb) ti ia]) idx :: 'a node"
  let ?W = "rewrite_jumps_walk cp (Some v)"
  let ?good = "\<lambda>l. \<exists>pre post. l = pre @ Block a sz stmts idx # ContinueNode (Some ia) v # post"
  have WB: "?W ?B = [Block a sz stmts idx, ContinueNode (Some ia) v]"
    by (simp add: rewrite_jump_to_continue_jump)
  from blocks_outside_loops_children [OF less.prems]
  obtain m where m: "m \<in> set (children n)" "?B \<in> set (blocks_outside_loops m)" by blast
  have IH: "\<exists>l \<in> set (container_lists (in_slot (?W m))). ?good l" if "\<not> is_Block m"
    using less.IH [OF children_size [OF m(1)] that m(2)] .
  have mB: "m = ?B" if "is_Block m" using that m(2) by (cases m) auto
  have lists: "\<exists>l \<in> set (L # concat (map container_lists L)). ?good l"
    if ns: "children n = ns" and L: "L = concat (map ?W ns)" for ns L
  proof (cases "is_Block m")
    case True
    from m(1) ns obtain p q where pq: "ns = p @ m # q" by (metis split_list)
    have "L = concat (map ?W p) @ Block a sz stmts idx # ContinueNode (Some ia) v
              # concat (map ?W q)"
      unfolding L pq using mB [OF True] WB by simp
    then have "?good L" by blast
    then show ?thesis by simp
  next
    case False
    from rewrite_jumps_walk_single [OF False, of cp "Some v"]
    obtain m' where m': "?W m = [m']" by blast
    with IH [OF False] obtain l where l: "l \<in> set (container_lists m')" "?good l" by auto
    from m(1) ns m' have "m' \<in> set L" unfolding L by force
    with l(1) have "l \<in> set (concat (map container_lists L))" by auto
    then have "l \<in> set (L # concat (map container_lists L))" by (rule list.set_intros(2))
    with l(2) show ?thesis by blast
  qed
  show ?case
  proof (cases "is_container n \<or> is_LoopNode n")
    case True
    then show ?thesis
    proof (cases n)
      case (SequenceNode x ns)
      with lists [of ns "concat (map ?W ns)"] show ?thesis by simp
    next
      case (MultiNode ns x y)
      with lists [of ns "concat (map ?W ns)"] show ?thesis by simp
    next
      case (LoopNode s c b x)
      with less.prems show ?thesis by simp
    qed simp_all
  next
    case False
    let ?h = "\<lambda>m. in_slot (?W m)"
    have W: "?W n = [walker_handle_default ?h n]"
      using False less.prems(1) by (simp add: rewrite_jumps_walk_default)
    have cl: "container_lists (walker_handle_default ?h n)
              = concat (map (\<lambda>m. container_lists (?h m)) (children n))"
      using False by (simp add: container_lists_default)
    have "\<exists>l \<in> set (container_lists (?h m)). ?good l"
    proof (cases "is_Block m")
      case True
      have "[Block a sz stmts idx, ContinueNode (Some ia) v]
            \<in> set (container_lists (?h m))"
        unfolding mB [OF True] WB by simp
      moreover have "?good [Block a sz stmts idx, ContinueNode (Some ia) v]"
        by (intro exI [of _ "[]"]) simp
      ultimately show ?thesis by blast
    next
      case False
      then show ?thesis by (rule IH)
    qed
    then obtain l where "l \<in> set (container_lists (?h m))" "?good l" by blast
    with m(1) have "\<exists>l \<in> set (concat (map (\<lambda>m. container_lists (?h m)) (children n))). ?good l"
      by auto
    then show ?thesis unfolding W cl [symmetric] by simp
  qed
qed


lemma no_trailing_continue_plain: "\<not> is_container n \<Longrightarrow> no_trailing_continue n"
  by (cases n) auto

lemma is_container_remove_continue [simp]:
  "is_container (remove_continue_node_at_loop_body_ends n) = is_container n"
  by (cases n) auto

lemma is_ContinueNode_remove_continue [simp]:
  "is_ContinueNode (remove_continue_node_at_loop_body_ends n) = is_ContinueNode n"
  by (cases n) auto

lemma rewrite_jumps_walk_same_kind:
  "\<not> is_Block n \<Longrightarrow>
   \<exists>n'. rewrite_jumps_walk cp ca n = [n'] \<and> is_container n' = is_container n
        \<and> is_ContinueNode n' = is_ContinueNode n"
  by (cases n) auto

lemma continue_nodes_end:
  assumes "continue_nodes cp ca s = Some ins"
  shows "ins \<noteq> [] \<and> \<not> is_container (last ins)
         \<and> (is_ContinueNode (last ins) \<longrightarrow>
              butlast ins = []
              \<or> (\<not> is_container (last (butlast ins)) \<and> \<not> is_ContinueNode (last (butlast ins))))"
proof (cases ca)
  case None
  with assms show ?thesis by simp
next
  case (Some v)
  show ?thesis
  proof (cases s)
    case (Jump i tgt ti a)
    with assms Some show ?thesis by (auto split: if_splits)
  next
    case (ConditionalJump i c tt ft tti fti a)
    have "ins' \<noteq> [] \<and> \<not> is_container (last ins')
         \<and> (is_ContinueNode (last ins') \<longrightarrow>
              butlast ins' = []
              \<or> (\<not> is_container (last (butlast ins')) \<and> \<not> is_ContinueNode (last (butlast ins'))))"
      if "ins' = continue_after_condition cp v i a cond other" for ins' cond other
      unfolding that by (cases other) (simp_all add: continue_after_condition_def)
    with assms Some ConditionalJump show ?thesis by (auto split: if_splits)
  qed (use assms Some in simp_all)
qed

text \<open>
  The end of the list that takes the place of the last child \<open>l\<close> of a container: either
  it ends with a continue node that follows a node that is neither a container nor a continue
  node, or its last node is, after the removal, neither a continue node nor a container that
  ends with one.
\<close>

lemma walked_end:
  assumes "\<not> is_ContinueNode l"
    and "is_container l \<Longrightarrow>
           no_trailing_continue
             (remove_continue_node_at_loop_body_ends (in_slot (rewrite_jumps_walk cp ca l)))"
  defines "X \<equiv> rewrite_jumps_walk cp ca l"
  shows "X \<noteq> []"
    and "is_ContinueNode (last X) \<Longrightarrow>
           butlast X \<noteq> [] \<and> \<not> is_container (last (butlast X))
           \<and> \<not> is_ContinueNode (last (butlast X))"
    and "\<not> is_ContinueNode (last X) \<Longrightarrow>
           no_trailing_continue (remove_continue_node_at_loop_body_ends (last X))"
proof -
  have all: "X \<noteq> []
    \<and> (is_ContinueNode (last X) \<longrightarrow>
           butlast X \<noteq> [] \<and> \<not> is_container (last (butlast X))
           \<and> \<not> is_ContinueNode (last (butlast X)))
    \<and> (\<not> is_ContinueNode (last X) \<longrightarrow>
           no_trailing_continue (remove_continue_node_at_loop_body_ends (last X)))"
  proof (cases "is_Block l")
    case True
    then obtain a sz stmts i where l: "l = Block a sz stmts i" by (cases l) auto
    show ?thesis
    proof (cases "stmts = []")
      case True
      with l show ?thesis by (simp add: X_def rewrite_jump_to_continue_def)
    next
      case ne: False
      show ?thesis
      proof (cases "continue_nodes cp ca (last stmts)")
        case None
        with l ne show ?thesis by (simp add: X_def rewrite_jump_to_continue_def)
      next
        case (Some ins)
        from continue_nodes_end [OF Some]
        have ins: "ins \<noteq> []" "\<not> is_container (last ins)"
          "is_ContinueNode (last ins) \<Longrightarrow> butlast ins = []
              \<or> (\<not> is_container (last (butlast ins)) \<and> \<not> is_ContinueNode (last (butlast ins)))"
          by blast+
        have X: "X = Block a sz (butlast stmts) i # ins"
          using l ne Some by (simp add: X_def rewrite_jump_to_continue_def)
        have 1: "last X = last ins" using X ins(1) by simp
        have 2: "butlast X = Block a sz (butlast stmts) i # butlast ins" using X ins(1) by simp
        have 3: "last (butlast X) = (if butlast ins = [] then Block a sz (butlast stmts) i
                                      else last (butlast ins))"
          unfolding 2 by simp
        have "\<not> is_container (remove_continue_node_at_loop_body_ends (last ins))"
          using ins(2) by simp
        then have 4: "no_trailing_continue (remove_continue_node_at_loop_body_ends (last ins))"
          by (rule no_trailing_continue_plain)
        show ?thesis
          using ins(1) ins(3) 4 unfolding 1 3 by (auto simp: X 2)
      qed
    qed
  next
    case False
    from rewrite_jumps_walk_same_kind [OF False, of cp ca]
    obtain l' where l': "X = [l']" "is_container l' = is_container l"
      "is_ContinueNode l' = is_ContinueNode l"
      unfolding X_def by blast
    have "no_trailing_continue (remove_continue_node_at_loop_body_ends l')"
    proof (cases "is_container l")
      case True
      from assms(2) [OF True] l'(1) show ?thesis by (simp add: X_def)
    next
      case False
      with l'(2) have "\<not> is_container (remove_continue_node_at_loop_body_ends l')" by simp
      then show ?thesis by (rule no_trailing_continue_plain)
    qed
    with l' assms(1) show ?thesis by simp
  qed
  from all show "X \<noteq> []" by blast
  from all show "is_ContinueNode (last X) \<Longrightarrow>
           butlast X \<noteq> [] \<and> \<not> is_container (last (butlast X))
           \<and> \<not> is_ContinueNode (last (butlast X))" by blast
  from all show "\<not> is_ContinueNode (last X) \<Longrightarrow>
           no_trailing_continue (remove_continue_node_at_loop_body_ends (last X))" by blast
qed


lemma removed_end:
  fixes P X :: "'c node list"
  assumes "X \<noteq> []"
    and "is_ContinueNode (last X) \<Longrightarrow>
           butlast X \<noteq> [] \<and> \<not> is_container (last (butlast X))
           \<and> \<not> is_ContinueNode (last (butlast X))"
    and "\<not> is_ContinueNode (last X) \<Longrightarrow>
           no_trailing_continue (remove_continue_node_at_loop_body_ends (last X))"
  defines "L \<equiv> P @ X"
  defines "R \<equiv> (if L = [] then L
                  else if is_ContinueNode (last L) then butlast L
                  else butlast L @ [remove_continue_node_at_loop_body_ends (last L)])"
  shows "R \<noteq> [] \<and> \<not> is_ContinueNode (last R) \<and> no_trailing_continue (last R)"
proof -
  have L: "L \<noteq> []" "last L = last X" "butlast L = P @ butlast X"
    using assms(1) by (simp_all add: L_def butlast_append)
  show ?thesis
  proof (cases "is_ContinueNode (last X)")
    case True
    from assms(2) [OF True] have b: "butlast X \<noteq> []" "\<not> is_container (last (butlast X))"
      "\<not> is_ContinueNode (last (butlast X))" by blast+
    have "R = P @ butlast X" using True L by (simp add: R_def)
    with b show ?thesis by (simp add: no_trailing_continue_plain)
  next
    case False
    have "R = (P @ butlast X) @ [remove_continue_node_at_loop_body_ends (last X)]"
      using False L by (simp add: R_def)
    with False assms(3) [OF False] show ?thesis by simp
  qed
qed

lemma remove_continue_Sequence:
  "remove_continue_node_at_loop_body_ends (SequenceNode a L)
   = SequenceNode a (drop_trailing_continue L)"
  by (simp add: drop_trailing_continue_def)

lemma remove_continue_MultiNode:
  "remove_continue_node_at_loop_body_ends (MultiNode L a i)
   = MultiNode (drop_trailing_continue L) a i"
  by (simp add: drop_trailing_continue_def)

lemma no_trailing_continue_after:
  "is_container n \<Longrightarrow> no_trailing_continue n \<Longrightarrow>
   no_trailing_continue
     (remove_continue_node_at_loop_body_ends (in_slot (rewrite_jumps_walk cp ca n)))"
proof (induction n rule: measure_induct_rule [where f = size])
  case (less n)
  let ?W = "rewrite_jumps_walk cp ca"
  let ?rc = "remove_continue_node_at_loop_body_ends :: 'a node \<Rightarrow> 'a node"
  have lists: "drop_trailing_continue (concat (map ?W ns)) = []
               \<or> (\<not> is_ContinueNode (last (drop_trailing_continue (concat (map ?W ns))))
                  \<and> no_trailing_continue (last (drop_trailing_continue (concat (map ?W ns)))))"
    if ns: "children n = ns"
      and nt: "ns = [] \<or> (\<not> is_ContinueNode (last ns) \<and> no_trailing_continue (last ns))"
    for ns
  proof (cases ns rule: rev_cases)
    case Nil
    then show ?thesis by (simp add: drop_trailing_continue_def)
  next
    case (snoc bs l)
    with nt have l: "\<not> is_ContinueNode l" "no_trailing_continue l" by simp_all
    from snoc ns have "l \<in> set (children n)" by simp
    then have sz: "size l < size n" by (rule children_size)
    have IH: "is_container l \<Longrightarrow> no_trailing_continue (?rc (in_slot (?W l)))"
      using less.IH [OF sz _ l(2)] by simp
    note we = walked_end [of l cp ca, OF l(1) IH]
    have c: "concat (map ?W ns) = concat (map ?W bs) @ ?W l" unfolding snoc by simp
    from removed_end [of "?W l" "concat (map ?W bs)", OF we]
    show ?thesis unfolding c drop_trailing_continue_def by blast
  qed
  show ?case
  proof (cases n)
    case (SequenceNode a ns)
    with less.prems(2)
    have nt: "ns = [] \<or> (\<not> is_ContinueNode (last ns) \<and> no_trailing_continue (last ns))"
      by (simp split: if_splits)
    have ch: "children n = ns" using SequenceNode by simp
    have "?rc (in_slot (?W n)) = SequenceNode a (drop_trailing_continue (concat (map ?W ns)))"
      unfolding SequenceNode by (simp only: rewrite_jumps_walk.simps in_slot.simps
          remove_continue_Sequence)
    with lists [OF ch nt] show ?thesis by auto
  next
    case (MultiNode ns a i)
    with less.prems(2)
    have nt: "ns = [] \<or> (\<not> is_ContinueNode (last ns) \<and> no_trailing_continue (last ns))"
      by (simp split: if_splits)
    have ch: "children n = ns" using MultiNode by simp
    have "?rc (in_slot (?W n)) = MultiNode (drop_trailing_continue (concat (map ?W ns))) a i"
      unfolding MultiNode by (simp only: rewrite_jumps_walk.simps in_slot.simps
          remove_continue_MultiNode)
    with lists [OF ch nt] show ?thesis by auto
  qed (use less.prems(1) in simp_all)
qed


lemma blocks_outside_loops_ContinueNode: "is_ContinueNode n \<Longrightarrow> blocks_outside_loops n = []"
  by (cases n) auto

lemma container_lists_ContinueNode: "is_ContinueNode n \<Longrightarrow> container_lists n = []"
  by (cases n) auto

lemma blocks_outside_loops_default:
  assumes "\<not> is_LoopNode n" and "\<not> is_Block n"
    and "\<And>m. m \<in> set (children n) \<Longrightarrow> blocks_outside_loops (h m) = blocks_outside_loops m"
  shows "blocks_outside_loops (walker_handle_default h n) = blocks_outside_loops n"
proof -
  have "blocks_outside_loops (walker_handle_default h n)
        = concat (map (\<lambda>m. blocks_outside_loops (h m)) (children n))"
    using assms(1,2) by (cases n) (auto split: option.splits simp: comp_def)
  also have "\<dots> = concat (map blocks_outside_loops (children n))"
    using assms(3) by (simp cong: map_cong)
  also have "\<dots> = blocks_outside_loops n" using assms(1,2) by (cases n) auto
  finally show ?thesis .
qed

lemma blocks_outside_loops_remove_continue:
  "blocks_outside_loops (remove_continue_node_at_loop_body_ends n) = blocks_outside_loops n"
proof (induction n rule: measure_induct_rule [where f = size])
  case (less n)
  have IH: "blocks_outside_loops (remove_continue_node_at_loop_body_ends m)
            = blocks_outside_loops m"
    if "m \<in> set (children n)" for m
    using less [of m] children_size [OF that] by simp
  have lists: "concat (map blocks_outside_loops (drop_trailing_continue ns))
               = concat (map blocks_outside_loops ns)"
    if "set ns \<subseteq> set (children n)" for ns
  proof (cases ns rule: rev_cases)
    case Nil
    then show ?thesis by (simp add: drop_trailing_continue_def)
  next
    case (snoc bs l)
    with that IH [of l] show ?thesis
      by (simp add: drop_trailing_continue_def blocks_outside_loops_ContinueNode)
  qed
  show ?case
  proof (cases "is_container n \<or> is_LoopNode n \<or> is_SwitchCaseNode n \<or> is_Block n")
    case True
    then show ?thesis
    proof (cases n)
      case (SequenceNode a ns)
      then show ?thesis using lists [of ns] by (simp only: remove_continue_Sequence) simp
    next
      case (MultiNode ns a i)
      then show ?thesis using lists [of ns] by (simp only: remove_continue_MultiNode) simp
    qed auto
  next
    case False
    then show ?thesis
      using IH by (simp add: remove_continue_default blocks_outside_loops_default)
  qed
qed

lemma container_lists_plain:
  "\<not> is_container n \<Longrightarrow> \<not> is_LoopNode n \<Longrightarrow>
   container_lists n = concat (map container_lists (children n))"
  by (cases n) auto

lemma container_lists_remove_continue:
  assumes "l \<in> set (container_lists n)"
  shows "\<exists>l' \<in> set (container_lists (remove_continue_node_at_loop_body_ends n)).
           l' = l \<or> l' = drop_trailing_continue l"
  using assms
proof (induction n rule: measure_induct_rule [where f = size])
  case (less n)
  let ?rc = "remove_continue_node_at_loop_body_ends :: 'a node \<Rightarrow> 'a node"
  let ?ok = "\<lambda>l'. l' = l \<or> l' = drop_trailing_continue l"
  have IH: "\<exists>l' \<in> set (container_lists (?rc m)). ?ok l'"
    if "m \<in> set (children n)" "l \<in> set (container_lists m)" for m
    using less.IH [OF children_size [OF that(1)] that(2)] .
  have lists: "\<exists>l' \<in> set (drop_trailing_continue ns
                           # concat (map container_lists (drop_trailing_continue ns))). ?ok l'"
    if ns: "children n = ns" and l: "l \<in> set (ns # concat (map container_lists ns))" for ns
  proof (cases "l = ns")
    case True
    then show ?thesis by simp
  next
    case False
    with l obtain m where m: "m \<in> set ns" "l \<in> set (container_lists m)" by auto
    then have "ns \<noteq> []" by auto
    then obtain bs x where bx: "ns = bs @ [x]" by (metis rev_exhaust)
    show ?thesis
    proof (cases "m \<in> set bs")
      case True
      then have "m \<in> set (drop_trailing_continue ns)"
        unfolding bx by (simp add: drop_trailing_continue_def)
      with m(2) have "l \<in> set (concat (map container_lists (drop_trailing_continue ns)))"
        by auto
      then show ?thesis by auto
    next
      case False
      with m(1) bx have mx: "m = x" by simp
      have nc: "\<not> is_ContinueNode x"
        using m(2) mx container_lists_ContinueNode [of x] by auto
      have d: "drop_trailing_continue ns = bs @ [?rc x]"
        unfolding bx using nc by (simp add: drop_trailing_continue_def)
      from IH [of m] m ns mx obtain l' where l': "l' \<in> set (container_lists (?rc x))" "?ok l'"
        by auto
      from l'(1) have "l' \<in> set (concat (map container_lists (drop_trailing_continue ns)))"
        unfolding d by simp
      with l'(2) show ?thesis by auto
    qed
  qed
  show ?case
  proof (cases "is_container n \<or> is_LoopNode n \<or> is_SwitchCaseNode n")
    case True
    then show ?thesis
    proof (cases n)
      case (SequenceNode a ns)
      have "container_lists (?rc n)
            = drop_trailing_continue ns # concat (map container_lists (drop_trailing_continue ns))"
        unfolding SequenceNode by (simp only: remove_continue_Sequence container_lists.simps)
      with lists [of ns] less.prems SequenceNode show ?thesis by simp
    next
      case (MultiNode ns a i)
      have "container_lists (?rc n)
            = drop_trailing_continue ns # concat (map container_lists (drop_trailing_continue ns))"
        unfolding MultiNode by (simp only: remove_continue_MultiNode container_lists.simps)
      with lists [of ns] less.prems MultiNode show ?thesis by simp
    next
      case (LoopNode s c b a)
      with less.prems show ?thesis by simp
    next
      case (SwitchCaseNode e cs d a)
      with less.prems show ?thesis by auto
    qed simp_all
  next
    case False
    then have rc: "?rc n = walker_handle_default ?rc n" by (simp add: remove_continue_default)
    have cl: "container_lists (walker_handle_default ?rc n)
              = concat (map (\<lambda>m. container_lists (?rc m)) (children n))"
      using False by (simp add: container_lists_default)
    from less.prems False obtain m where m: "m \<in> set (children n)" "l \<in> set (container_lists m)"
      by (auto simp: container_lists_plain)
    from IH [OF m] obtain l' where "l' \<in> set (container_lists (?rc m))" "?ok l'" by blast
    with m(1) show ?thesis unfolding rc cl by auto
  qed
qed

lemma drop_trailing_continue_after_block:
  assumes "l = pre @ Block b sz stmts idx # ContinueNode ia v # post"
    and "l' = l \<or> l' = drop_trailing_continue l"
  shows "\<exists>pre' post'. l' = pre' @ Block b sz stmts idx # post'
           \<and> (post' = [] \<or> hd post' = ContinueNode ia v)"
proof (cases "l' = l")
  case True
  with assms(1) show ?thesis by (intro exI [of _ pre] exI [of _ "ContinueNode ia v # post"]) simp
next
  case False
  with assms(2) have l': "l' = drop_trailing_continue l" by simp
  show ?thesis
  proof (cases post rule: rev_cases)
    case Nil
    then have "l' = pre @ [Block b sz stmts idx]"
      unfolding l' assms(1) by (simp add: drop_trailing_continue_def butlast_append)
    then show ?thesis by (intro exI [of _ pre] exI [of _ "[]"]) simp
  next
    case (snoc ps x)
    have "\<exists>post''. l' = pre @ Block b sz stmts idx # ContinueNode ia v # post''"
      unfolding l' assms(1) snoc
      by (simp add: drop_trailing_continue_def butlast_append)
    then obtain post'' where "l' = pre @ Block b sz stmts idx # ContinueNode ia v # post''" ..
    then show ?thesis
      by (intro exI [of _ pre] exI [of _ "ContinueNode ia v # post''"]) simp
  qed
qed

text \<open>
  C4, as the claim states it, fails. A body whose last child is already a continue node, after
  a block that ends with a jump to the continue address: the walk inserts a continue node
  after the block, the removal deletes one continue node at the end of the body, and the last
  child of the body is still a continue node.
\<close>

theorem rewrite_jumps_to_continues_trailing_counterexample:
  "rewrite_jumps_to_continues example_cp
     (SequenceNode (Some 0)
        [Block 0 4 [Jump None (Const None 0 64) None 0] None, ContinueNode (Some 4) 0])
     None
   = Inr (SequenceNode (Some 0) [Block 0 4 [] None, ContinueNode (Some 0) 0])
   \<and> \<not> no_trailing_continue
        (SequenceNode (Some 0) [Block 0 4 [] None, ContinueNode (Some 0) 0 :: string node])"
  by (simp add: rewrite_jump_to_continue_def)

text \<open>
  C4, amended. Let the body of a loop be a sequence, \<open>v\<close> the continue address of the loop.
  The pass returns a tree. Every block of the body outside the nested loops whose last
  statement is a jump with the constant target \<open>v\<close> loses that statement, and a continue
  node, at the address of the jump and with target \<open>v\<close>, is inserted right after the block
  in the tree that the walk leaves; in the tree that the pass returns the block is followed by
  that continue node or is the last node of its sequence or \<^verbatim>\<open>MultiNode\<close>, the continue
  node deleted. And when, before the pass, the last child of the body and of its trailing
  \<^verbatim>\<open>MultiNode\<close>s and sequences is not a continue node, it is not one after the pass.
\<close>

theorem rewrite_jumps_to_continues_continue_nodes:
  assumes "continue_node_addr (SequenceNode a ns) loop_node = Some v"
  shows "\<exists>t. rewrite_jumps_to_continues cp (SequenceNode a ns) loop_node = Inr t
           \<and> (Block b sz (stmts @ [Jump i (Const ci v cb) ti ia]) idx
                  \<in> set (blocks_outside_loops (SequenceNode a ns)) \<longrightarrow>
                (\<exists>l \<in> set (container_lists
                             (in_slot (rewrite_jumps_walk cp (Some v) (SequenceNode a ns)))).
                   \<exists>pre post. l = pre @ Block b sz stmts idx # ContinueNode (Some ia) v # post)
                \<and> (\<exists>l \<in> set (container_lists t).
                      \<exists>pre post. l = pre @ Block b sz stmts idx # post
                        \<and> (post = [] \<or> hd post = ContinueNode (Some ia) v)))
           \<and> (no_trailing_continue (SequenceNode a ns) \<longrightarrow> no_trailing_continue t)"
proof -
  let ?body = "SequenceNode a ns :: 'a node"
  let ?walked = "in_slot (rewrite_jumps_walk cp (Some v) ?body)"
  let ?t = "remove_continue_node_at_loop_body_ends ?walked"
  have t: "rewrite_jumps_to_continues cp ?body loop_node = Inr ?t"
    using assms by (simp only: rewrite_jumps_to_continues.simps)
  have p1: "(\<exists>l \<in> set (container_lists ?walked).
               \<exists>pre post. l = pre @ Block b sz stmts idx # ContinueNode (Some ia) v # post)
            \<and> (\<exists>l \<in> set (container_lists ?t).
                  \<exists>pre post. l = pre @ Block b sz stmts idx # post
                    \<and> (post = [] \<or> hd post = ContinueNode (Some ia) v))"
    if B: "Block b sz (stmts @ [Jump i (Const ci v cb) ti ia]) idx
             \<in> set (blocks_outside_loops ?body)"
  proof -
    have nb: "\<not> is_Block ?body" by simp
    from continue_inserted [OF nb B, of cp]
    obtain l pre post where l: "l \<in> set (container_lists ?walked)"
      "l = pre @ Block b sz stmts idx # ContinueNode (Some ia) v # post" by blast
    from container_lists_remove_continue [OF l(1)]
    obtain l' where l': "l' \<in> set (container_lists ?t)" "l' = l \<or> l' = drop_trailing_continue l"
      by blast
    from drop_trailing_continue_after_block [OF l(2) l'(2)] l'(1) l show ?thesis by blast
  qed
  have p2: "no_trailing_continue ?t" if "no_trailing_continue ?body"
    using no_trailing_continue_after [of ?body cp "Some v"] that by simp
  from t p1 p2 show ?thesis by blast
qed

theorem rewrite_jumps_to_continues_continue_nodes_witness:
  "continue_node_addr
     (SequenceNode (Some 0)
        [Block 0 4 [OtherStmt None 0 0, Jump None (Const None 0 64) None 2] None,
         Block 4 4 [OtherStmt None 1 4, Jump None (Const None 0 64) None 6] None :: string node])
     None = Some 0
   \<and> Block 0 4 [OtherStmt None 0 0, Jump None (Const None 0 64) None 2] None
       \<in> set (blocks_outside_loops
           (SequenceNode (Some 0)
              [Block 0 4 [OtherStmt None 0 0, Jump None (Const None 0 64) None 2] None,
               Block 4 4 [OtherStmt None 1 4, Jump None (Const None 0 64) None 6] None
                 :: string node]))
   \<and> no_trailing_continue
     (SequenceNode (Some 0)
        [Block 0 4 [OtherStmt None 0 0, Jump None (Const None 0 64) None 2] None,
         Block 4 4 [OtherStmt None 1 4, Jump None (Const None 0 64) None 6] None :: string node])
   \<and> rewrite_jumps_to_continues example_cp
     (SequenceNode (Some 0)
        [Block 0 4 [OtherStmt None 0 0, Jump None (Const None 0 64) None 2] None,
         Block 4 4 [OtherStmt None 1 4, Jump None (Const None 0 64) None 6] None])
     None
   = Inr (SequenceNode (Some 0)
        [Block 0 4 [OtherStmt None 0 0] None, ContinueNode (Some 2) 0,
         Block 4 4 [OtherStmt None 1 4] None])
   \<and> no_trailing_continue
        (SequenceNode (Some 0)
           [Block 0 4 [OtherStmt None 0 0] None, ContinueNode (Some 2) 0,
            Block 4 4 [OtherStmt None 1 4] None :: string node])"
proof -
  have 1: "continue_node_addr
     (SequenceNode (Some 0)
        [Block 0 4 [OtherStmt None 0 0, Jump None (Const None 0 64) None 2] None,
         Block 4 4 [OtherStmt None 1 4, Jump None (Const None 0 64) None 6] None :: string node])
     None = Some 0"
    by simp
  show ?thesis
    using rewrite_jumps_to_continues_continue_nodes [OF 1, of example_cp 0 4
        "[OtherStmt None 0 0]" None None 64 None 2 None]
    by (simp add: rewrite_jump_to_continue_def)
qed

end
